theory Spec2Isabelle
  imports Main "HOL-Library.Word"
begin

unbundle bit_operations_syntax

section \<open>Basic types and error handling\<close>

type_synonym Byte = "8 word"
type_synonym Word = "16 word"

datatype ExitStatus =
    ok
  | reserved1
  | reserved2
  | badArgs
  | badInputFile
  | badOutputFile
  | badInputFormat
  | unsupportedInputFormat

text \<open>The numeric value of each enumerator, as \<open>static_cast<int>\<close> yields it.\<close>

fun exitCode :: "ExitStatus \<Rightarrow> int" where
  "exitCode ok = 0"
| "exitCode reserved1 = 1"
| "exitCode reserved2 = 2"
| "exitCode badArgs = 3"
| "exitCode badInputFile = 4"
| "exitCode badOutputFile = 5"
| "exitCode badInputFormat = 6"
| "exitCode unsupportedInputFormat = 7"

text \<open>
  The ways a computation stops early: \<open>fail\<close> terminates the process with an exit
  status, a failed \<open>assert\<close> aborts it, and an access outside a container is undefined
  behaviour, which the model reports instead of hiding.
\<close>

datatype failure =
    Exit ExitStatus
  | AssertionFailed
  | OutOfBounds

definition fail :: "ExitStatus \<Rightarrow> failure + 'a" where
  "fail exitStatus = Inl (Exit exitStatus)"

definition enforce :: "bool \<Rightarrow> ExitStatus \<Rightarrow> failure + unit" where
  "enforce condition exitStatus = (if \<not> condition then fail exitStatus else Inr ())"

text \<open>Sequencing of fallible steps: the first failure ends the computation.\<close>

definition andThen :: "failure + 'a \<Rightarrow> ('a \<Rightarrow> failure + 'b) \<Rightarrow> failure + 'b" where
  "andThen r f = (case r of Inl e \<Rightarrow> Inl e | Inr x \<Rightarrow> f x)"

section \<open>Pixels, accumulators and rows\<close>

text \<open>
  \<open>Pixel<numComponents>\<close> is an array of \<open>numComponents\<close> bytes, \<open>Accumulator\<close> an
  array of as many 16-bit words, and a \<open>Row\<close> a vector of pixels.
\<close>

type_synonym Pixel = "Byte list"
type_synonym Accumulator = "Word list"
type_synonym Row = "Pixel list"

section \<open>The box-filter reducer\<close>

text \<open>
  The lambda \<open>accumulate\<close>: every component of the pixel is added to the accumulator's
  component, in 16 bits (the sum is formed in \<open>int\<close> and stored back into a \<open>Word\<close>).
\<close>

definition accumulate :: "nat \<Rightarrow> Accumulator \<Rightarrow> Pixel \<Rightarrow> Accumulator" where
  "accumulate numComponents accumulator pixel =
     map (\<lambda>componentIndex. accumulator ! componentIndex + ucast (pixel ! componentIndex))
       [0..<numComponents]"

definition accumulatedUnit :: nat where
  "accumulatedUnit = 4"

definition accumulatedHalf :: nat where
  "accumulatedHalf = accumulatedUnit div 2"

text \<open>The accumulator after the fill and the four calls of \<open>accumulate\<close>.\<close>

definition accumulated :: "nat \<Rightarrow> Pixel \<Rightarrow> Pixel \<Rightarrow> Pixel \<Rightarrow> Pixel \<Rightarrow> Accumulator" where
  "accumulated numComponents p00 p01 p10 p11 =
     accumulate numComponents
       (accumulate numComponents
         (accumulate numComponents
           (accumulate numComponents
             (replicate numComponents (of_nat accumulatedHalf)) p00) p01) p10) p11"

text \<open>
  The output pixel: each accumulator component shifted right by two and narrowed to a
  byte (the narrowing keeps the low eight bits).
\<close>

definition outPixelOf :: "nat \<Rightarrow> Accumulator \<Rightarrow> Pixel" where
  "outPixelOf numComponents accumulator =
     map (\<lambda>componentIndex. ucast (drop_bit 2 (accumulator ! componentIndex)))
       [0..<numComponents]"

text \<open>
  The \<open>while\<close> loop of the row reducer. The three iterators are indices into the two
  input rows and the output row; an iterator moved or dereferenced beyond its row is
  reported as \<open>OutOfBounds\<close>.
\<close>

function convertLoop ::
  "nat \<Rightarrow> Row \<Rightarrow> Row \<Rightarrow> Row \<Rightarrow> nat \<Rightarrow> nat \<Rightarrow> nat \<Rightarrow> failure + (Row \<times> nat \<times> nat \<times> nat)" where
  "convertLoop numComponents inRows0 inRows1 outRow i0 i1 oi =
     (if i0 \<noteq> length inRows0 then
        (if length inRows0 < i0 + 2 \<or> length inRows1 < i1 + 2 \<or> length outRow < oi + 1
         then Inl OutOfBounds
         else
           let accumulator = accumulated numComponents
                 (inRows0 ! i0) (inRows0 ! (i0 + 1)) (inRows1 ! i1) (inRows1 ! (i1 + 1));
               outPixel = outPixelOf numComponents accumulator
           in convertLoop numComponents inRows0 inRows1 (outRow[oi := outPixel])
                (i0 + 2) (i1 + 2) (oi + 1))
      else Inr (outRow, i0, i1, oi))"
  by pat_completeness auto
termination
  by (relation "measure (\<lambda>(n, r0, r1, out, i0, i1, oi). length r0 - i0)") auto

declare convertLoop.simps [simp del]

text \<open>The row reducer \<open>convert(inRows0, inRows1, outRow)\<close>, with its assertions.\<close>

definition convertRows :: "nat \<Rightarrow> Row \<Rightarrow> Row \<Rightarrow> Row \<Rightarrow> failure + Row" where
  "convertRows numComponents inRows0 inRows1 outRow =
     (if length inRows0 \<noteq> length inRows1 then Inl AssertionFailed
      else if length inRows0 \<noteq> length outRow * 2 then Inl AssertionFailed
      else
        andThen (convertLoop numComponents inRows0 inRows1 outRow 0 0 0)
          (\<lambda>(outRow', i0, i1, oi).
             if i0 \<noteq> length inRows0 then Inl AssertionFailed
             else if i1 \<noteq> length inRows1 then Inl AssertionFailed
             else if oi \<noteq> length outRow' then Inl AssertionFailed
             else Inr outRow'))"

section \<open>The TGA header\<close>

text \<open>
  The packed 18-byte header. The descriptor's bit-fields keep their declared widths.
  \<open>ColorMapType\<close> and \<open>ImageType\<close> are enumerations over a byte; a file may hold any
  byte there, so the fields are bytes and the enumerators are constants.
\<close>

definition none :: Byte where
  "none = 0"

definition uncompressedTrueColorImage :: Byte where
  "uncompressedTrueColorImage = 2"

definition uncompressedGrayScaleImage :: Byte where
  "uncompressedGrayScaleImage = 3"

record ColorMapSpecification =
  colorMapOffset :: Word
  colorMapSize :: Word
  colorMapBpp :: Byte

record Descriptor =
  attributeBits :: "4 word"
  reserved :: "1 word"
  direction :: "1 word"
  interleave :: "2 word"

record Specification =
  xOrigin :: Word
  yOrigin :: Word
  width :: Word
  height :: Word
  bpp :: Byte
  descriptor :: Descriptor

record Header =
  idLength :: Byte
  colorMapType :: Byte
  imageType :: Byte
  colorMapSpecification :: ColorMapSpecification
  imageSpecification :: Specification

text \<open>
  The object representation the program relies on (\<open>pragma pack(1)\<close>, little-endian
  words, bit-fields allocated from the least significant bit).
\<close>

definition wordOfBytes :: "Byte \<Rightarrow> Byte \<Rightarrow> Word" where
  "wordOfBytes lo hi = ucast lo OR push_bit 8 (ucast hi)"

definition bytesOfWord :: "Word \<Rightarrow> Byte list" where
  "bytesOfWord w = [ucast w, ucast (drop_bit 8 w)]"

definition descriptorOfByte :: "Byte \<Rightarrow> Descriptor" where
  "descriptorOfByte b =
     \<lparr> attributeBits = ucast b,
       reserved = ucast (drop_bit 4 b),
       direction = ucast (drop_bit 5 b),
       interleave = ucast (drop_bit 6 b) \<rparr>"

definition byteOfDescriptor :: "Descriptor \<Rightarrow> Byte" where
  "byteOfDescriptor d =
     ucast (attributeBits d) OR push_bit 4 (ucast (reserved d))
       OR push_bit 5 (ucast (direction d)) OR push_bit 6 (ucast (interleave d))"

definition headerSize :: nat where
  "headerSize = 18"

definition headerOfBytes :: "Byte list \<Rightarrow> Header" where
  "headerOfBytes bs =
     \<lparr> idLength = bs ! 0,
       colorMapType = bs ! 1,
       imageType = bs ! 2,
       colorMapSpecification =
         \<lparr> colorMapOffset = wordOfBytes (bs ! 3) (bs ! 4),
           colorMapSize = wordOfBytes (bs ! 5) (bs ! 6),
           colorMapBpp = bs ! 7 \<rparr>,
       imageSpecification =
         \<lparr> xOrigin = wordOfBytes (bs ! 8) (bs ! 9),
           yOrigin = wordOfBytes (bs ! 10) (bs ! 11),
           width = wordOfBytes (bs ! 12) (bs ! 13),
           height = wordOfBytes (bs ! 14) (bs ! 15),
           bpp = bs ! 16,
           descriptor = descriptorOfByte (bs ! 17) \<rparr> \<rparr>"

definition bytesOfHeader :: "Header \<Rightarrow> Byte list" where
  "bytesOfHeader h =
     [idLength h, colorMapType h, imageType h]
     @ bytesOfWord (colorMapOffset (colorMapSpecification h))
     @ bytesOfWord (colorMapSize (colorMapSpecification h))
     @ [colorMapBpp (colorMapSpecification h)]
     @ bytesOfWord (xOrigin (imageSpecification h))
     @ bytesOfWord (yOrigin (imageSpecification h))
     @ bytesOfWord (width (imageSpecification h))
     @ bytesOfWord (height (imageSpecification h))
     @ [bpp (imageSpecification h), byteOfDescriptor (descriptor (imageSpecification h))]"

text \<open>\<open>inspect\<close>: the header checks, each an \<open>enforce\<close>, in the order of the source.\<close>

definition inspect :: "Header \<Rightarrow> failure + unit" where
  "inspect header =
     andThen (enforce (colorMapType header = none) unsupportedInputFormat) (\<lambda>_.
     andThen (enforce (colorMapOffset (colorMapSpecification header) = 0) badInputFormat) (\<lambda>_.
     andThen (enforce (colorMapSize (colorMapSpecification header) = 0) badInputFormat) (\<lambda>_.
     andThen (enforce (colorMapBpp (colorMapSpecification header) = 0) badInputFormat) (\<lambda>_.
     andThen (enforce (width (imageSpecification header) > 0) badInputFormat) (\<lambda>_.
     andThen (enforce (height (imageSpecification header) > 0) badInputFormat) (\<lambda>_.
     andThen (enforce (bpp (imageSpecification header) \<ge> 8) unsupportedInputFormat) (\<lambda>_.
     andThen (enforce (bpp (imageSpecification header) \<le> 32) unsupportedInputFormat) (\<lambda>_.
     andThen (enforce (bpp (imageSpecification header) mod 8 = 0) unsupportedInputFormat) (\<lambda>_.
     andThen (enforce (attributeBits (descriptor (imageSpecification header)) = 0
                \<or> attributeBits (descriptor (imageSpecification header)) = 8)
                unsupportedInputFormat) (\<lambda>_.
     andThen (enforce (reserved (descriptor (imageSpecification header)) = 0) badInputFormat) (\<lambda>_.
     enforce (interleave (descriptor (imageSpecification header)) = 0) unsupportedInputFormat)))))))))))"

text \<open>
  The output header (the copy and the four assignments). The operands are promoted to
  32-bit \<open>int\<close> before the addition and the shift, and the result is stored back into a
  16-bit field.
\<close>

definition outHeaderOf :: "Header \<Rightarrow> Header" where
  "outHeaderOf inHeader =
     inHeader \<lparr> imageSpecification := (imageSpecification inHeader)
       \<lparr> xOrigin := ucast (drop_bit 1 (ucast (xOrigin (imageSpecification inHeader)) :: 32 word)),
         yOrigin := ucast (drop_bit 1 (ucast (yOrigin (imageSpecification inHeader)) :: 32 word)),
         height := ucast (drop_bit 1 (ucast (height (imageSpecification inHeader)) + 1 :: 32 word)),
         width := ucast (drop_bit 1 (ucast (width (imageSpecification inHeader)) + 1 :: 32 word)) \<rparr> \<rparr>"

section \<open>Files\<close>

text \<open>
  An input stream is the bytes not yet read and its end-of-file indicator. An output
  stream is the bytes written so far and the number of bytes the device still accepts.
\<close>

record InFile =
  unread :: "Byte list"
  eofFlag :: bool

record OutFile =
  written :: "Byte list"
  room :: nat

text \<open>
  \<open>fread\<close> returns the number of whole objects read and the bytes read; it sets the
  end-of-file indicator only when the request goes beyond the end.
\<close>

definition fread :: "nat \<Rightarrow> nat \<Rightarrow> InFile \<Rightarrow> nat \<times> Byte list \<times> InFile" where
  "fread objectSize numObjects inFile =
     (if objectSize * numObjects \<le> length (unread inFile)
      then (numObjects, take (objectSize * numObjects) (unread inFile),
            inFile \<lparr> unread := drop (objectSize * numObjects) (unread inFile) \<rparr>)
      else (length (unread inFile) div objectSize, unread inFile,
            inFile \<lparr> unread := [], eofFlag := True \<rparr>))"

definition fwrite :: "nat \<Rightarrow> nat \<Rightarrow> Byte list \<Rightarrow> OutFile \<Rightarrow> nat \<times> OutFile" where
  "fwrite objectSize numObjects bytes outFile =
     (if objectSize * numObjects \<le> room outFile
      then (numObjects,
            outFile \<lparr> written := written outFile @ take (objectSize * numObjects) bytes,
                      room := room outFile - objectSize * numObjects \<rparr>)
      else (room outFile div objectSize,
            outFile \<lparr> written := written outFile @ take (room outFile) bytes, room := 0 \<rparr>))"

text \<open>\<open>EOF\<close> and the two character calls; \<open>fputc\<close> writes its argument converted to a byte.\<close>

definition EOF :: int where
  "EOF = -1"

definition fgetc :: "InFile \<Rightarrow> int \<times> InFile" where
  "fgetc inFile =
     (case unread inFile of
        [] \<Rightarrow> (EOF, inFile \<lparr> eofFlag := True \<rparr>)
      | b # bs \<Rightarrow> (uint b, inFile \<lparr> unread := bs \<rparr>))"

definition fputc :: "int \<Rightarrow> OutFile \<Rightarrow> OutFile" where
  "fputc c outFile =
     (if room outFile = 0 then outFile
      else outFile \<lparr> written := written outFile @ [word_of_int c], room := room outFile - 1 \<rparr>)"

definition feof :: "InFile \<Rightarrow> bool" where
  "feof inFile = eofFlag inFile"

definition readObjects :: "nat \<Rightarrow> nat \<Rightarrow> InFile \<Rightarrow> failure + (Byte list \<times> InFile)" where
  "readObjects objectSize numObjects inFile =
     (case fread objectSize numObjects inFile of
        (readCount, bytes, inFile') \<Rightarrow>
          if readCount \<noteq> numObjects then fail badInputFormat else Inr (bytes, inFile'))"

definition writeObjects :: "nat \<Rightarrow> nat \<Rightarrow> Byte list \<Rightarrow> OutFile \<Rightarrow> failure + OutFile" where
  "writeObjects objectSize numObjects bytes outFile =
     (case fwrite objectSize numObjects bytes outFile of
        (writeCount, outFile') \<Rightarrow>
          if writeCount \<noteq> numObjects then fail badOutputFile else Inr outFile')"

section \<open>Rows on files\<close>

text \<open>
  \<open>readRow\<close> reads \<open>inWidth\<close> pixels over the front of the row and then assigns the
  pixel at \<open>inWidth - 1\<close> to the row's last element. A width of zero or one beyond the
  row would index outside it.
\<close>

definition readRow :: "nat \<Rightarrow> InFile \<Rightarrow> Row \<Rightarrow> nat \<Rightarrow> failure + (InFile \<times> Row)" where
  "readRow numComponents inFile row inWidth =
     (if inWidth = 0 \<or> length row < inWidth then Inl OutOfBounds
      else
        andThen (readObjects numComponents inWidth inFile) (\<lambda>(bytes, inFile').
          let row1 = map (\<lambda>i. if i < inWidth
                                then take numComponents (drop (i * numComponents) bytes)
                                else row ! i) [0..<length row];
              row2 = row1[length row1 - 1 := row1 ! (inWidth - 1)]
          in Inr (inFile', row2)))"

definition writeRow :: "nat \<Rightarrow> OutFile \<Rightarrow> Row \<Rightarrow> failure + OutFile" where
  "writeRow numComponents outFile row =
     writeObjects numComponents (length row) (concat row) outFile"

section \<open>The pixel pipeline\<close>

text \<open>The \<open>for\<close> loop over the complete row pairs, counting \<open>i\<close> down to zero.\<close>

fun convertPairs ::
  "nat \<Rightarrow> nat \<Rightarrow> nat \<Rightarrow> InFile \<times> OutFile \<times> Row \<times> Row \<times> Row
     \<Rightarrow> failure + (InFile \<times> OutFile \<times> Row \<times> Row \<times> Row)" where
  "convertPairs numComponents inWidth 0 s = Inr s"
| "convertPairs numComponents inWidth (Suc i) (inFile, outFile, inRow0, inRow1, outRow) =
     andThen (readRow numComponents inFile inRow0 inWidth) (\<lambda>(inFile, inRow0).
     andThen (readRow numComponents inFile inRow1 inWidth) (\<lambda>(inFile, inRow1).
     andThen (convertRows numComponents inRow0 inRow1 outRow) (\<lambda>outRow.
     andThen (writeRow numComponents outFile outRow) (\<lambda>outFile.
       convertPairs numComponents inWidth i (inFile, outFile, inRow0, inRow1, outRow)))))"

definition inWidthRupOf :: "Word \<Rightarrow> 32 word" where
  "inWidthRupOf inWidthComplete = (ucast inWidthComplete + 1) AND NOT 1"

definition outColumnsRupOf :: "Word \<Rightarrow> 32 word" where
  "outColumnsRupOf inWidthComplete = drop_bit 1 (ucast inWidthComplete + 1)"

definition outRowsCompleteOf :: "Word \<Rightarrow> 32 word" where
  "outRowsCompleteOf inHeight = drop_bit 1 (ucast inHeight)"

text \<open>
  \<open>convert<numComponents>(inFile, outFile, inSpecification, outSpecification)\<close>. The
  rows are value-initialised vectors; taking \<open>back()\<close> of an empty one is outside it.
  The three assertions after the allocation compare the addresses of a row's first and
  last pixel: they say that a pixel occupies \<open>numComponents\<close> bytes and that the rows
  have the lengths just given to them, which holds of lists of pixels by construction.
\<close>

definition convertImage ::
  "nat \<Rightarrow> InFile \<Rightarrow> OutFile \<Rightarrow> Specification \<Rightarrow> Specification
     \<Rightarrow> failure + (InFile \<times> OutFile)" where
  "convertImage numComponents inFile outFile inSpecification outSpecification =
     (let inWidthComplete = width inSpecification;
          inWidthRup = inWidthRupOf inWidthComplete;
          outColumnsRup = outColumnsRupOf (width inSpecification);
          outRowsComplete = outRowsCompleteOf (height inSpecification);
          inRow0 = replicate (unat inWidthRup) (replicate numComponents 0);
          inRow1 = replicate (unat inWidthRup) (replicate numComponents 0);
          outRow = replicate (unat outColumnsRup) (replicate numComponents 0)
      in if inRow0 = [] \<or> inRow1 = [] \<or> outRow = [] then Inl OutOfBounds
         else
           andThen (convertPairs numComponents (unat (width inSpecification))
                      (unat outRowsComplete) (inFile, outFile, inRow0, inRow1, outRow))
             (\<lambda>(inFile, outFile, inRow0, inRow1, outRow).
                if height inSpecification AND 1 \<noteq> 0 then
                  andThen (readRow numComponents inFile inRow0 (unat (width inSpecification)))
                    (\<lambda>(inFile, inRow0).
                  andThen (convertRows numComponents inRow0 inRow0 outRow) (\<lambda>outRow.
                  andThen (writeRow numComponents outFile outRow) (\<lambda>outFile.
                    Inr (inFile, outFile))))
                else Inr (inFile, outFile)))"

section \<open>The whole conversion\<close>

text \<open>The \<open>switch\<close> on the pixel depth.\<close>

definition convertPixels ::
  "InFile \<Rightarrow> OutFile \<Rightarrow> Header \<Rightarrow> Header \<Rightarrow> failure + (InFile \<times> OutFile)" where
  "convertPixels inFile outFile inHeader outHeader =
     (if bpp (imageSpecification inHeader) = 8 then
        andThen (enforce (imageType inHeader = uncompressedGrayScaleImage) unsupportedInputFormat)
          (\<lambda>_. convertImage 1 inFile outFile (imageSpecification inHeader) (imageSpecification outHeader))
      else if bpp (imageSpecification inHeader) = 16 then
        andThen (enforce (imageType inHeader = uncompressedGrayScaleImage) unsupportedInputFormat)
          (\<lambda>_. convertImage 2 inFile outFile (imageSpecification inHeader) (imageSpecification outHeader))
      else if bpp (imageSpecification inHeader) = 24 then
        andThen (enforce (imageType inHeader = uncompressedTrueColorImage) unsupportedInputFormat)
          (\<lambda>_. convertImage 3 inFile outFile (imageSpecification inHeader) (imageSpecification outHeader))
      else if bpp (imageSpecification inHeader) = 32 then
        andThen (enforce (imageType inHeader = uncompressedTrueColorImage) unsupportedInputFormat)
          (\<lambda>_. convertImage 4 inFile outFile (imageSpecification inHeader) (imageSpecification outHeader))
      else fail unsupportedInputFormat)"

text \<open>
  The final \<open>while (!feof(inFile)) fputc(fgetc(inFile), outFile)\<close>. Every pass either
  consumes a byte or sets the end-of-file indicator, so the loop ends.
\<close>

function copyTrailer :: "InFile \<Rightarrow> OutFile \<Rightarrow> InFile \<times> OutFile" where
  "copyTrailer inFile outFile =
     (if \<not> feof inFile then
        (case fgetc inFile of (c, inFile') \<Rightarrow> copyTrailer inFile' (fputc c outFile))
      else (inFile, outFile))"
  by pat_completeness auto
termination
  by (relation "measure (\<lambda>(inFile, outFile).
        length (unread inFile) + (if eofFlag inFile then 0 else 1))")
     (auto simp: fgetc_def feof_def split: list.splits)

declare copyTrailer.simps [simp del]

text \<open>
  \<open>convert(inFile, outFile)\<close>, with its two assertions: the ID length fits the
  255-byte buffer, and the stream is at its end after the trailer loop.
\<close>

definition UINT8_MAX :: nat where
  "UINT8_MAX = 255"

definition convertFile :: "InFile \<Rightarrow> OutFile \<Rightarrow> failure + (InFile \<times> OutFile)" where
  "convertFile inFile outFile =
     andThen (readObjects headerSize 1 inFile) (\<lambda>(headerBytes, inFile).
     let inHeader = headerOfBytes headerBytes in
     andThen (inspect inHeader) (\<lambda>_.
     let outHeader = outHeaderOf inHeader in
     andThen (writeObjects headerSize 1 (bytesOfHeader outHeader) outFile) (\<lambda>outFile.
     if UINT8_MAX < unat (idLength inHeader) then Inl AssertionFailed
     else
     andThen (readObjects 1 (unat (idLength inHeader)) inFile) (\<lambda>(idField, inFile).
     andThen (writeObjects 1 (unat (idLength inHeader)) idField outFile) (\<lambda>outFile.
     andThen (convertPixels inFile outFile inHeader outHeader) (\<lambda>(inFile, outFile).
       case copyTrailer inFile outFile of
         (inFile, outFile) \<Rightarrow>
           if \<not> feof inFile then Inl AssertionFailed else Inr (inFile, outFile)))))))"

section \<open>What the pipeline is expected to write\<close>

text \<open>
  Vocabulary for stating the pipeline's effect on whole streams, following the
  specification's wording rather than the program text. \<open>reducedRow\<close> is the
  reducer's contract: output pixel k is built from the 2x2 block at columns 2k and 2k+1
  of the two input rows. \<open>inputRow\<close> is row j of a stream of \<open>w\<close>-pixel rows, with
  the last pixel repeated where the width is odd. \<open>expectedRows\<close> pairs the rows:
  \<open>h div 2\<close> complete pairs, then, for odd \<open>h\<close>, the last row paired with itself.
\<close>

definition reducedRow :: "nat \<Rightarrow> Row \<Rightarrow> Row \<Rightarrow> Row" where
  "reducedRow numComponents rowA rowB =
     map (\<lambda>k. outPixelOf numComponents
                (accumulated numComponents (rowA ! (2 * k)) (rowA ! (2 * k + 1))
                   (rowB ! (2 * k)) (rowB ! (2 * k + 1))))
       [0..<length rowA div 2]"

definition inputRow :: "nat \<Rightarrow> nat \<Rightarrow> Byte list \<Rightarrow> nat \<Rightarrow> Row" where
  "inputRow numComponents w bytes j =
     map (\<lambda>i. take numComponents (drop ((j * w + min i (w - 1)) * numComponents) bytes))
       [0..<2 * ((w + 1) div 2)]"

definition expectedRows :: "nat \<Rightarrow> nat \<Rightarrow> nat \<Rightarrow> Byte list \<Rightarrow> Row list" where
  "expectedRows numComponents w h bytes =
     map (\<lambda>i. reducedRow numComponents (inputRow numComponents w bytes (2 * i))
                (inputRow numComponents w bytes (2 * i + 1))) [0..<h div 2]
     @ (if odd h
        then [reducedRow numComponents (inputRow numComponents w bytes (h - 1))
                (inputRow numComponents w bytes (h - 1))]
        else [])"

section \<open>Properties of the reducer\<close>

lemma length_accumulate: "length (accumulate n acc p) = n"
  by (simp add: accumulate_def)

lemma accumulate_nth:
  "c < n \<Longrightarrow> accumulate n acc p ! c = acc ! c + ucast (p ! c)"
  by (simp add: accumulate_def)

lemma accumulated_nth:
  "c < n \<Longrightarrow> accumulated n p q r s ! c =
     2 + ucast (p ! c) + ucast (q ! c) + ucast (r ! c) + ucast (s ! c)"
  by (simp add: accumulated_def accumulate_nth accumulatedHalf_def accumulatedUnit_def)

lemma length_accumulated: "length (accumulated n p q r s) = n"
  by (simp add: accumulated_def length_accumulate)

lemma unat_byte_le: "unat (b :: Byte) \<le> 255"
proof -
  have "unat b < 2 ^ LENGTH(8)" by (rule unsigned_less)
  then show ?thesis by simp
qed

lemma unat_ucast_byte: "unat (ucast (b :: Byte) :: Word) = unat b"
proof -
  have "unat b < 2 ^ 16" using unat_byte_le [of b] by simp
  then show ?thesis
    by (simp add: unsigned_ucast_eq take_bit_nat_eq_self)
qed

lemma unat_sum4:
  fixes a b c d :: Byte
  shows "unat (2 + ucast a + ucast b + ucast c + ucast d :: Word) =
     2 + unat a + unat b + unat c + unat d"
proof -
  have "2 + unat a + unat b + unat c + unat d < 2 ^ 16"
    using unat_byte_le [of a] unat_byte_le [of b] unat_byte_le [of c] unat_byte_le [of d]
    by simp
  then show ?thesis
    by (simp add: unat_word_ariths unat_ucast_byte take_bit_nat_eq_self flip: take_bit_eq_mod)
qed

lemma narrow_shift:
  fixes w :: Word
  assumes "unat w \<le> 1023"
  shows "unat (ucast (drop_bit 2 w) :: Byte) = unat w div 4"
proof -
  have "unat (drop_bit 2 w) = unat w div 4"
    by (simp add: unat_drop_bit_eq drop_bit_eq_div unat_div_distrib)
  moreover have "unat w div 4 < 2 ^ 8" using assms by simp
  ultimately show ?thesis
    by (simp add: unsigned_ucast_eq take_bit_nat_eq_self)
qed

lemma convertLoop_inv:
  assumes "length in0 = 2 * length out" "length in1 = 2 * length out"
    and "oi \<le> length out"
  shows "\<exists>out'. convertLoop n in0 in1 out (2 * oi) (2 * oi) oi
            = Inr (out', length in0, length in1, length out)
          \<and> length out' = length out
          \<and> (\<forall>k < length out. out' ! k =
                (if k < oi then out ! k
                 else outPixelOf n (accumulated n (in0 ! (2 * k)) (in0 ! (2 * k + 1))
                        (in1 ! (2 * k)) (in1 ! (2 * k + 1)))))"
  using assms
proof (induction "length out - oi" arbitrary: out oi)
  case 0
  then have "oi = length out" by simp
  with 0 show ?case by (subst convertLoop.simps) simp
next
  case (Suc d)
  then have lt: "oi < length out" by simp
  let ?px = "outPixelOf n (accumulated n (in0 ! (2 * oi)) (in0 ! (2 * oi + 1))
                        (in1 ! (2 * oi)) (in1 ! (2 * oi + 1)))"
  let ?out = "out[oi := ?px]"
  have d: "d = length ?out - Suc oi" using Suc.hyps(2) by simp
  have l0: "length in0 = 2 * length ?out" and l1: "length in1 = 2 * length ?out"
    using Suc.prems by simp_all
  have le: "Suc oi \<le> length ?out" using lt by simp
  from Suc.hyps(1) [OF d l0 l1 le]
  obtain out' where
    run: "convertLoop n in0 in1 ?out (2 * Suc oi) (2 * Suc oi) (Suc oi)
            = Inr (out', length in0, length in1, length ?out)"
    and len: "length out' = length ?out"
    and nth: "\<forall>k < length ?out. out' ! k =
                (if k < Suc oi then ?out ! k
                 else outPixelOf n (accumulated n (in0 ! (2 * k)) (in0 ! (2 * k + 1))
                        (in1 ! (2 * k)) (in1 ! (2 * k + 1))))"
    by blast
  have step: "convertLoop n in0 in1 out (2 * oi) (2 * oi) oi
      = convertLoop n in0 in1 ?out (2 * Suc oi) (2 * Suc oi) (Suc oi)"
    using lt Suc.prems(1,2)
    by (subst convertLoop.simps) (simp add: Let_def)
  have "\<forall>k < length out. out' ! k =
                (if k < oi then out ! k
                 else outPixelOf n (accumulated n (in0 ! (2 * k)) (in0 ! (2 * k + 1))
                        (in1 ! (2 * k)) (in1 ! (2 * k + 1))))"
  proof (intro allI impI)
    fix k assume k: "k < length out"
    show "out' ! k =
                (if k < oi then out ! k
                 else outPixelOf n (accumulated n (in0 ! (2 * k)) (in0 ! (2 * k + 1))
                        (in1 ! (2 * k)) (in1 ! (2 * k + 1))))"
    proof (cases "k = oi")
      case True
      with nth k lt show ?thesis by simp
    next
      case False
      with nth k show ?thesis by (auto simp: less_Suc_eq)
    qed
  qed
  with run len step show ?case by simp
qed

lemma convertRows_result:
  assumes "length in1 = length in0" "length in0 = length out * 2"
  shows "convertRows n in0 in1 out =
     Inr (map (\<lambda>k. outPixelOf n (accumulated n (in0 ! (2 * k)) (in0 ! (2 * k + 1))
                        (in1 ! (2 * k)) (in1 ! (2 * k + 1)))) [0..<length out])"
proof -
  have l0: "length in0 = 2 * length out" and l1: "length in1 = 2 * length out"
    using assms by simp_all
  from convertLoop_inv [OF l0 l1, of 0 n]
  obtain out' where
    run: "convertLoop n in0 in1 out 0 0 0 = Inr (out', length in0, length in1, length out)"
    and len: "length out' = length out"
    and nth: "\<forall>k < length out. out' ! k =
                 outPixelOf n (accumulated n (in0 ! (2 * k)) (in0 ! (2 * k + 1))
                        (in1 ! (2 * k)) (in1 ! (2 * k + 1)))"
    by auto
  have eq: "out' = map (\<lambda>k. outPixelOf n (accumulated n (in0 ! (2 * k)) (in0 ! (2 * k + 1))
                        (in1 ! (2 * k)) (in1 ! (2 * k + 1)))) [0..<length out]"
    using len nth by (intro nth_equalityI) simp_all
  show ?thesis
    using assms run len unfolding convertRows_def andThen_def eq [symmetric]
    by simp
qed

lemma outPixel_component:
  assumes "c < n"
  shows "unat (outPixelOf n (accumulated n p q r s) ! c) =
     (unat (p ! c) + unat (q ! c) + unat (r ! c) + unat (s ! c) + 2) div 4"
proof -
  let ?a = "accumulated n p q r s ! c"
  have a: "unat ?a = 2 + unat (p ! c) + unat (q ! c) + unat (r ! c) + unat (s ! c)"
    using assms by (simp add: accumulated_nth unat_sum4)
  have "unat ?a \<le> 1023"
    using a unat_byte_le [of "p ! c"] unat_byte_le [of "q ! c"]
      unat_byte_le [of "r ! c"] unat_byte_le [of "s ! c"] by simp
  then have "unat (ucast (drop_bit 2 ?a) :: Byte) = unat ?a div 4"
    by (rule narrow_shift)
  then show ?thesis
    using assms a by (simp add: outPixelOf_def add.commute add.left_commute)
qed

lemma length_outPixelOf: "length (outPixelOf n a) = n"
  by (simp add: outPixelOf_def)

text \<open>
  Claim C1. For input rows A and B of equal length L with an output row of length L/2 (the
  reducer's entry assertions; L is then even), the reducer returns an output row of
  length L/2 whose pixels have \<open>numComponents\<close> components, and each component of output
  pixel k is (A[2k] + A[2k+1] + B[2k] + B[2k+1] + 2) div 4 in exact arithmetic.
\<close>

theorem reducer_formula:
  assumes "length rowB = length rowA" and "length rowA = length outRow * 2"
  shows "\<exists>outRow'. convertRows numComponents rowA rowB outRow = Inr outRow'
      \<and> length outRow' = length rowA div 2
      \<and> (\<forall>k < length rowA div 2. length (outRow' ! k) = numComponents
           \<and> (\<forall>c < numComponents. unat (outRow' ! k ! c) =
                 (unat (rowA ! (2 * k) ! c) + unat (rowA ! (2 * k + 1) ! c)
                  + unat (rowB ! (2 * k) ! c) + unat (rowB ! (2 * k + 1) ! c) + 2) div 4))"
  using assms
  by (simp add: convertRows_result outPixel_component length_outPixelOf)

theorem reducer_formula_witness:
  "\<exists>outRow'. convertRows 1 [[10], [20]] [[30], [40]] [[0]] = Inr outRow'
      \<and> length outRow' = 1 \<and> unat (outRow' ! 0 ! 0) = 25"
  using reducer_formula [of "[[30], [40]]" "[[10], [20]]" "[[0]]" 1]
  by auto

text \<open>
  Claim C8. When the four pixels of a 2x2 block agree on a component's value v, the
  reducer's output pixel for that block has exactly v in that component.
\<close>

theorem constant_block_preserved:
  assumes "length rowB = length rowA" and "length rowA = length outRow * 2"
    and "k < length rowA div 2" and "c < numComponents"
    and "rowA ! (2 * k) ! c = v" and "rowA ! (2 * k + 1) ! c = v"
    and "rowB ! (2 * k) ! c = v" and "rowB ! (2 * k + 1) ! c = v"
  shows "\<exists>outRow'. convertRows numComponents rowA rowB outRow = Inr outRow'
      \<and> outRow' ! k ! c = v"
proof -
  let ?px = "outPixelOf numComponents (accumulated numComponents (rowA ! (2 * k))
               (rowA ! (2 * k + 1)) (rowB ! (2 * k)) (rowB ! (2 * k + 1)))"
  have "unat (?px ! c) = (unat v + unat v + unat v + unat v + 2) div 4"
    using assms(4-8) by (simp add: outPixel_component)
  then have "unat (?px ! c) = unat v" by simp
  then have "?px ! c = v" by (simp add: word_unat_eq_iff)
  then show ?thesis
    using assms(1-3) by (simp add: convertRows_result)
qed

theorem constant_block_preserved_witness:
  "\<exists>outRow'. convertRows 2 [[255, 7], [255, 7]] [[255, 7], [255, 7]] [[0, 0]] = Inr outRow'
      \<and> outRow' ! 0 ! 0 = 255"
  using constant_block_preserved [of "[[255, 7], [255, 7]]" "[[255, 7], [255, 7]]" "[[0, 0]]"
      0 0 2 255]
  by simp

lemma accumulate_stage:
  assumes "c < n" and "unat (acc ! c) \<le> 767"
  shows "unat (accumulate n acc p ! c) = unat (acc ! c) + unat (p ! c)"
proof -
  have "unat (acc ! c) + unat (p ! c) < 2 ^ 16"
    using assms(2) unat_byte_le [of "p ! c"] by simp
  then show ?thesis
    using assms(1)
    by (simp add: accumulate_nth unat_word_ariths unat_ucast_byte take_bit_nat_eq_self
        flip: take_bit_eq_mod)
qed

lemma accumulator_stages:
  assumes "c < n"
  shows "unat (accumulate n (replicate n (of_nat accumulatedHalf)) p00 ! c) = 2 + unat (p00 ! c)"
    and "unat (accumulate n (accumulate n (replicate n (of_nat accumulatedHalf)) p00) p01 ! c)
           = 2 + unat (p00 ! c) + unat (p01 ! c)"
    and "unat (accumulate n (accumulate n (accumulate n
              (replicate n (of_nat accumulatedHalf)) p00) p01) p10 ! c)
           = 2 + unat (p00 ! c) + unat (p01 ! c) + unat (p10 ! c)"
proof -
  let ?a0 = "replicate n (of_nat accumulatedHalf) :: Accumulator"
  have z: "unat (?a0 ! c) = 2"
    using assms by (simp add: accumulatedHalf_def accumulatedUnit_def)
  show s1: "unat (accumulate n ?a0 p00 ! c) = 2 + unat (p00 ! c)"
    using accumulate_stage [OF assms, of ?a0 p00] z by simp
  have "unat (accumulate n ?a0 p00 ! c) \<le> 767"
    using s1 unat_byte_le [of "p00 ! c"] by simp
  from accumulate_stage [OF assms this, of p01]
  show s2: "unat (accumulate n (accumulate n ?a0 p00) p01 ! c)
      = 2 + unat (p00 ! c) + unat (p01 ! c)"
    using s1 by simp
  have "unat (accumulate n (accumulate n ?a0 p00) p01 ! c) \<le> 767"
    using s2 unat_byte_le [of "p00 ! c"] unat_byte_le [of "p01 ! c"] by simp
  from accumulate_stage [OF assms this, of p10]
  show "unat (accumulate n (accumulate n (accumulate n ?a0 p00) p01) p10 ! c)
      = 2 + unat (p00 ! c) + unat (p01 ! c) + unat (p10 ! c)"
    using s2 by simp
qed

text \<open>
  Claim C10. For any four pixels the 16-bit accumulator holds, after each of the four
  additions, the exact sum of the bias 2 and the components added so far, and at the end
  at most 1022, so no addition wraps; the shifted value is at most 255, so narrowing it
  to a byte loses nothing, and the output component is the exact value of the rounding
  formula.
\<close>

theorem accumulator_no_overflow:
  assumes "c < numComponents"
  shows "unat (accumulate numComponents
                 (replicate numComponents (of_nat accumulatedHalf)) p00 ! c)
           = 2 + unat (p00 ! c)
      \<and> unat (accumulate numComponents (accumulate numComponents
                 (replicate numComponents (of_nat accumulatedHalf)) p00) p01 ! c)
           = 2 + unat (p00 ! c) + unat (p01 ! c)
      \<and> unat (accumulate numComponents (accumulate numComponents (accumulate numComponents
                 (replicate numComponents (of_nat accumulatedHalf)) p00) p01) p10 ! c)
           = 2 + unat (p00 ! c) + unat (p01 ! c) + unat (p10 ! c)
      \<and> unat (accumulated numComponents p00 p01 p10 p11 ! c) =
           2 + unat (p00 ! c) + unat (p01 ! c) + unat (p10 ! c) + unat (p11 ! c)
      \<and> unat (accumulated numComponents p00 p01 p10 p11 ! c) \<le> 1022
      \<and> unat (drop_bit 2 (accumulated numComponents p00 p01 p10 p11 ! c)) \<le> 255
      \<and> unat (outPixelOf numComponents (accumulated numComponents p00 p01 p10 p11) ! c) =
           unat (drop_bit 2 (accumulated numComponents p00 p01 p10 p11 ! c))
      \<and> unat (outPixelOf numComponents (accumulated numComponents p00 p01 p10 p11) ! c) =
           (unat (p00 ! c) + unat (p01 ! c) + unat (p10 ! c) + unat (p11 ! c) + 2) div 4"
proof -
  let ?a = "accumulated numComponents p00 p01 p10 p11 ! c"
  note st = accumulator_stages [OF assms]
  have a: "unat ?a = 2 + unat (p00 ! c) + unat (p01 ! c) + unat (p10 ! c) + unat (p11 ! c)"
    using assms by (simp add: accumulated_nth unat_sum4)
  have b: "unat ?a \<le> 1022"
    using a unat_byte_le [of "p00 ! c"] unat_byte_le [of "p01 ! c"]
      unat_byte_le [of "p10 ! c"] unat_byte_le [of "p11 ! c"] by simp
  have s: "unat (drop_bit 2 ?a) = unat ?a div 4"
    by (simp add: unat_drop_bit_eq drop_bit_eq_div unat_div_distrib)
  have d: "unat (drop_bit 2 ?a) \<le> 255" using b s by simp
  have e: "unat (outPixelOf numComponents (accumulated numComponents p00 p01 p10 p11) ! c) =
      (unat (p00 ! c) + unat (p01 ! c) + unat (p10 ! c) + unat (p11 ! c) + 2) div 4"
    using assms by (rule outPixel_component)
  have f: "unat (outPixelOf numComponents (accumulated numComponents p00 p01 p10 p11) ! c) =
      unat (drop_bit 2 ?a)"
    unfolding e s a by (simp add: add.commute add.left_commute)
  show ?thesis using st a b d e f by blast
qed

theorem accumulator_no_overflow_witness:
  "unat (accumulated 1 [255] [255] [255] [255] ! 0) = 1022
   \<and> unat (drop_bit 2 (accumulated 1 [255] [255] [255] [255] ! 0)) \<le> 255
   \<and> unat (outPixelOf 1 (accumulated 1 [255] [255] [255] [255]) ! 0) = 255"
  using accumulator_no_overflow [where c = 0 and numComponents = 1 and ?p00.0 = "[255]"
      and ?p01.0 = "[255]" and ?p10.0 = "[255]" and ?p11.0 = "[255]"]
  by simp


section \<open>Word arithmetic of the dimensions\<close>

lemma and_not_one: "(x :: 32 word) AND NOT 1 = push_bit 1 (drop_bit 1 x)"
proof (rule bit_eqI)
  fix n
  show "bit (x AND NOT 1) n = bit (push_bit 1 (drop_bit 1 x)) n"
    unfolding bit_and_iff bit_not_iff bit_push_bit_iff bit_drop_bit_eq bit_1_iff
    by (cases n) (auto dest: bit_imp_possible_bit)
qed

lemma unat_round_down_even: "unat ((x :: 32 word) AND NOT 1) = 2 * (unat x div 2)"
proof -
  have "unat x < 2 ^ LENGTH(32)" by (rule unsigned_less)
  then have b: "2 * (unat x div 2) < 2 ^ 32" by simp
  have "unat (push_bit 1 (drop_bit 1 x)) = take_bit 32 (push_bit 1 (unat (drop_bit 1 x)))"
    by (simp only: unsigned_push_bit_eq) simp
  also have "unat (drop_bit 1 x) = unat x div 2"
    by (simp add: unat_drop_bit_eq drop_bit_eq_div unat_div_distrib)
  also have "take_bit 32 (push_bit 1 (unat x div 2)) = 2 * (unat x div 2)"
    using b by (simp add: push_bit_eq_mult take_bit_nat_eq_self)
  finally show ?thesis by (simp only: and_not_one)
qed

lemma odd_height_iff: "((h :: Word) AND 1 \<noteq> 0) \<longleftrightarrow> odd (unat h)"
proof -
  have "odd (unat h) \<longleftrightarrow> odd h"
    using bit_unsigned_iff [of h 0, where ?'a = nat] by (simp add: bit_0)
  moreover have "(h AND 1 \<noteq> 0) \<longleftrightarrow> odd h"
    unfolding and_one_eq by (simp add: odd_iff_mod_2_eq_one)
  ultimately show ?thesis by (simp only:)
qed


section \<open>Properties of the header\<close>

lemma unat_word_le: "unat (w :: Word) \<le> 65535"
proof -
  have "unat w < 2 ^ LENGTH(16)" by (rule unsigned_less)
  then show ?thesis by simp
qed

lemma unat_ucast_word32: "unat (ucast (w :: Word) :: 32 word) = unat w"
proof -
  have "unat w < 2 ^ 32" using unat_word_le [of w] by simp
  then show ?thesis
    by (simp add: unsigned_ucast_eq take_bit_nat_eq_self)
qed

lemma unat_succ_word32: "unat (ucast (w :: Word) + 1 :: 32 word) = unat w + 1"
proof -
  have "unat w + 1 < 2 ^ 32" using unat_word_le [of w] by simp
  then show ?thesis
    by (simp add: unat_word_ariths unat_ucast_word32 take_bit_nat_eq_self flip: take_bit_eq_mod)
qed

lemma unat_half_floor:
  "unat (ucast (drop_bit 1 (ucast (w :: Word) :: 32 word)) :: Word) = unat w div 2"
proof -
  have a: "unat (drop_bit 1 (ucast w :: 32 word)) = unat w div 2"
    by (simp add: unat_drop_bit_eq drop_bit_eq_div unat_div_distrib unat_ucast_word32)
  have "unat w div 2 < 2 ^ 16" using unat_word_le [of w] by simp
  then show ?thesis
    by (simp only: unsigned_ucast_eq a) (simp add: take_bit_nat_eq_self)
qed

lemma unat_outRowsCompleteOf: "unat (outRowsCompleteOf h) = unat h div 2"
  by (simp add: outRowsCompleteOf_def unat_drop_bit_eq drop_bit_eq_div unat_div_distrib
      unat_ucast_word32)

lemma unat_outColumnsRupOf: "unat (outColumnsRupOf w) = (unat w + 1) div 2"
proof -
  have "unat (drop_bit 1 (ucast w + 1 :: 32 word)) = unat (ucast w + 1 :: 32 word) div 2"
    by (simp add: unat_drop_bit_eq drop_bit_eq_div unat_div_distrib)
  then show ?thesis
    by (simp only: outColumnsRupOf_def unat_succ_word32)
qed

lemma unat_half_ceil:
  "unat (ucast (drop_bit 1 (ucast (w :: Word) + 1 :: 32 word)) :: Word) = (unat w + 1) div 2"
proof -
  have a: "unat (drop_bit 1 (ucast w + 1 :: 32 word)) = (unat w + 1) div 2"
    using unat_outColumnsRupOf [of w] by (simp only: outColumnsRupOf_def)
  have "(unat w + 1) div 2 < 2 ^ 16" using unat_word_le [of w] by simp
  then show ?thesis
    by (simp only: unsigned_ucast_eq a) (simp add: take_bit_nat_eq_self)
qed

text \<open>
  Claim C2. The output header agrees with the input header in idLength, colorMapType,
  imageType, the color-map specification, bitsPerPixel and the whole descriptor; its width
  and height are the input's halved rounding up, and its origins the input's halved
  rounding down. This holds for every header, so in particular for every header that
  passes \<open>inspect\<close>.
\<close>

theorem output_header_fields:
  "idLength (outHeaderOf h) = idLength h
   \<and> colorMapType (outHeaderOf h) = colorMapType h
   \<and> imageType (outHeaderOf h) = imageType h
   \<and> colorMapSpecification (outHeaderOf h) = colorMapSpecification h
   \<and> bpp (imageSpecification (outHeaderOf h)) = bpp (imageSpecification h)
   \<and> descriptor (imageSpecification (outHeaderOf h)) = descriptor (imageSpecification h)
   \<and> unat (width (imageSpecification (outHeaderOf h)))
        = (unat (width (imageSpecification h)) + 1) div 2
   \<and> unat (height (imageSpecification (outHeaderOf h)))
        = (unat (height (imageSpecification h)) + 1) div 2
   \<and> unat (xOrigin (imageSpecification (outHeaderOf h)))
        = unat (xOrigin (imageSpecification h)) div 2
   \<and> unat (yOrigin (imageSpecification (outHeaderOf h)))
        = unat (yOrigin (imageSpecification h)) div 2"
proof -
  have w: "width (imageSpecification (outHeaderOf h))
      = ucast (drop_bit 1 (ucast (width (imageSpecification h)) + 1 :: 32 word))"
    by (simp add: outHeaderOf_def)
  have ht: "height (imageSpecification (outHeaderOf h))
      = ucast (drop_bit 1 (ucast (height (imageSpecification h)) + 1 :: 32 word))"
    by (simp add: outHeaderOf_def)
  have x: "xOrigin (imageSpecification (outHeaderOf h))
      = ucast (drop_bit 1 (ucast (xOrigin (imageSpecification h)) :: 32 word))"
    by (simp add: outHeaderOf_def)
  have y: "yOrigin (imageSpecification (outHeaderOf h))
      = ucast (drop_bit 1 (ucast (yOrigin (imageSpecification h)) :: 32 word))"
    by (simp add: outHeaderOf_def)
  have rest: "idLength (outHeaderOf h) = idLength h
     \<and> colorMapType (outHeaderOf h) = colorMapType h
     \<and> imageType (outHeaderOf h) = imageType h
     \<and> colorMapSpecification (outHeaderOf h) = colorMapSpecification h
     \<and> bpp (imageSpecification (outHeaderOf h)) = bpp (imageSpecification h)
     \<and> descriptor (imageSpecification (outHeaderOf h)) = descriptor (imageSpecification h)"
    by (simp add: outHeaderOf_def)
  show ?thesis
    using rest by (simp only: w ht x y unat_half_ceil unat_half_floor simp_thms)
qed

lemma bpp_supported_iff:
  fixes b :: Byte
  shows "(8 \<le> b \<and> b \<le> 32 \<and> b mod 8 = 0) \<longleftrightarrow> b \<in> {8, 16, 24, 32}"
proof -
  have "(8 \<le> unat b \<and> unat b \<le> 32 \<and> unat b mod 8 = 0)
      \<longleftrightarrow> (unat b = 8 \<or> unat b = 16 \<or> unat b = 24 \<or> unat b = 32)"
    by presburger
  then show ?thesis
    by (simp add: word_le_nat_alt word_unat_eq_iff unat_mod_distrib)
qed

theorem output_header_fields_witness:
  "unat (width (imageSpecification (outHeaderOf
      \<lparr> idLength = 0, colorMapType = 0, imageType = 3,
        colorMapSpecification = \<lparr> colorMapOffset = 0, colorMapSize = 0, colorMapBpp = 0 \<rparr>,
        imageSpecification = \<lparr> xOrigin = 5, yOrigin = 7, width = 65535, height = 3, bpp = 8,
          descriptor = \<lparr> attributeBits = 8, reserved = 0, direction = 1,
            interleave = 0 \<rparr> \<rparr> \<rparr>))) = 32768
   \<and> unat (xOrigin (imageSpecification (outHeaderOf
      \<lparr> idLength = 0, colorMapType = 0, imageType = 3,
        colorMapSpecification = \<lparr> colorMapOffset = 0, colorMapSize = 0, colorMapBpp = 0 \<rparr>,
        imageSpecification = \<lparr> xOrigin = 5, yOrigin = 7, width = 65535, height = 3, bpp = 8,
          descriptor = \<lparr> attributeBits = 8, reserved = 0, direction = 1,
            interleave = 0 \<rparr> \<rparr> \<rparr>))) = 2"
  using output_header_fields [of
      "\<lparr> idLength = 0, colorMapType = 0, imageType = 3,
        colorMapSpecification = \<lparr> colorMapOffset = 0, colorMapSize = 0, colorMapBpp = 0 \<rparr>,
        imageSpecification = \<lparr> xOrigin = 5, yOrigin = 7, width = 65535, height = 3, bpp = 8,
          descriptor = \<lparr> attributeBits = 8, reserved = 0, direction = 1,
            interleave = 0 \<rparr> \<rparr> \<rparr>"]
  by simp

text \<open>
  Claim C6. \<open>inspect\<close> reports the first violated check in its fixed order: a color map
  type other than none is unsupportedInputFormat; then a non-zero color-map offset, size
  or bits-per-entry, a zero width or a zero height is badInputFormat; then a depth outside
  {8, 16, 24, 32} (below 8, above 32 or not a multiple of 8) is unsupportedInputFormat;
  then attributeBits outside {0, 8} is unsupportedInputFormat; then a non-zero reserved
  bit is badInputFormat; then a non-zero interleave is unsupportedInputFormat. The exit
  codes of the two kinds are 6 and 7.
\<close>

theorem inspect_first_violation:
  "inspect header =
     (if colorMapType header \<noteq> none then Inl (Exit unsupportedInputFormat)
      else if colorMapOffset (colorMapSpecification header) \<noteq> 0
            \<or> colorMapSize (colorMapSpecification header) \<noteq> 0
            \<or> colorMapBpp (colorMapSpecification header) \<noteq> 0
            \<or> width (imageSpecification header) = 0
            \<or> height (imageSpecification header) = 0
        then Inl (Exit badInputFormat)
      else if bpp (imageSpecification header) \<notin> {8, 16, 24, 32}
        then Inl (Exit unsupportedInputFormat)
      else if attributeBits (descriptor (imageSpecification header)) \<notin> {0, 8}
        then Inl (Exit unsupportedInputFormat)
      else if reserved (descriptor (imageSpecification header)) \<noteq> 0
        then Inl (Exit badInputFormat)
      else if interleave (descriptor (imageSpecification header)) \<noteq> 0
        then Inl (Exit unsupportedInputFormat)
      else Inr ())
   \<and> exitCode badInputFormat = 6 \<and> exitCode unsupportedInputFormat = 7"
proof -
  have "inspect header =
     (if colorMapType header \<noteq> none then Inl (Exit unsupportedInputFormat)
      else if colorMapOffset (colorMapSpecification header) \<noteq> 0
            \<or> colorMapSize (colorMapSpecification header) \<noteq> 0
            \<or> colorMapBpp (colorMapSpecification header) \<noteq> 0
            \<or> width (imageSpecification header) = 0
            \<or> height (imageSpecification header) = 0
        then Inl (Exit badInputFormat)
      else if \<not> (8 \<le> bpp (imageSpecification header)
                \<and> bpp (imageSpecification header) \<le> 32
                \<and> bpp (imageSpecification header) mod 8 = 0)
        then Inl (Exit unsupportedInputFormat)
      else if attributeBits (descriptor (imageSpecification header)) \<notin> {0, 8}
        then Inl (Exit unsupportedInputFormat)
      else if reserved (descriptor (imageSpecification header)) \<noteq> 0
        then Inl (Exit badInputFormat)
      else if interleave (descriptor (imageSpecification header)) \<noteq> 0
        then Inl (Exit unsupportedInputFormat)
      else Inr ())"
    by (simp add: inspect_def enforce_def andThen_def fail_def word_greater_zero_iff)
  then show ?thesis
    by (simp only: bpp_supported_iff exitCode.simps simp_thms)
qed

theorem inspect_first_violation_witness:
  "inspect
      \<lparr> idLength = 0, colorMapType = 1, imageType = 3,
        colorMapSpecification = \<lparr> colorMapOffset = 4, colorMapSize = 0, colorMapBpp = 0 \<rparr>,
        imageSpecification = \<lparr> xOrigin = 0, yOrigin = 0, width = 0, height = 3, bpp = 8,
          descriptor = \<lparr> attributeBits = 0, reserved = 1, direction = 0,
            interleave = 0 \<rparr> \<rparr> \<rparr> = Inl (Exit unsupportedInputFormat)
   \<and> inspect
      \<lparr> idLength = 0, colorMapType = 0, imageType = 3,
        colorMapSpecification = \<lparr> colorMapOffset = 0, colorMapSize = 0, colorMapBpp = 0 \<rparr>,
        imageSpecification = \<lparr> xOrigin = 0, yOrigin = 0, width = 0, height = 3, bpp = 12,
          descriptor = \<lparr> attributeBits = 0, reserved = 1, direction = 0,
            interleave = 0 \<rparr> \<rparr> \<rparr> = Inl (Exit badInputFormat)
   \<and> exitCode badInputFormat = 6 \<and> exitCode unsupportedInputFormat = 7"
  using inspect_first_violation [of
      "\<lparr> idLength = 0, colorMapType = 1, imageType = 3,
        colorMapSpecification = \<lparr> colorMapOffset = 4, colorMapSize = 0, colorMapBpp = 0 \<rparr>,
        imageSpecification = \<lparr> xOrigin = 0, yOrigin = 0, width = 0, height = 3, bpp = 8,
          descriptor = \<lparr> attributeBits = 0, reserved = 1, direction = 0,
            interleave = 0 \<rparr> \<rparr> \<rparr>"]
    inspect_first_violation [of
      "\<lparr> idLength = 0, colorMapType = 0, imageType = 3,
        colorMapSpecification = \<lparr> colorMapOffset = 0, colorMapSize = 0, colorMapBpp = 0 \<rparr>,
        imageSpecification = \<lparr> xOrigin = 0, yOrigin = 0, width = 0, height = 3, bpp = 12,
          descriptor = \<lparr> attributeBits = 0, reserved = 1, direction = 0,
            interleave = 0 \<rparr> \<rparr> \<rparr>"]
  by (simp add: none_def)

text \<open>
  Claim C7. The dispatcher runs the pipeline with 1, 2, 3 or 4 components for depth 8 or 16
  with the grayscale type and depth 24 or 32 with the true-color type; every other depth,
  and every depth with the other image type, fails with unsupportedInputFormat.
\<close>

theorem dispatch_by_depth:
  "convertPixels inFile outFile inHeader outHeader =
     (if bpp (imageSpecification inHeader) = 8 \<and> imageType inHeader = uncompressedGrayScaleImage
        then convertImage 1 inFile outFile (imageSpecification inHeader) (imageSpecification outHeader)
      else if bpp (imageSpecification inHeader) = 16
            \<and> imageType inHeader = uncompressedGrayScaleImage
        then convertImage 2 inFile outFile (imageSpecification inHeader) (imageSpecification outHeader)
      else if bpp (imageSpecification inHeader) = 24
            \<and> imageType inHeader = uncompressedTrueColorImage
        then convertImage 3 inFile outFile (imageSpecification inHeader) (imageSpecification outHeader)
      else if bpp (imageSpecification inHeader) = 32
            \<and> imageType inHeader = uncompressedTrueColorImage
        then convertImage 4 inFile outFile (imageSpecification inHeader) (imageSpecification outHeader)
      else Inl (Exit unsupportedInputFormat))"
  by (simp add: convertPixels_def enforce_def andThen_def fail_def)

theorem dispatch_by_depth_witness:
  "convertPixels \<lparr> unread = [1, 2, 3, 4], eofFlag = False \<rparr> \<lparr> written = [], room = 8 \<rparr>
      \<lparr> idLength = 0, colorMapType = 0, imageType = 2,
        colorMapSpecification = \<lparr> colorMapOffset = 0, colorMapSize = 0, colorMapBpp = 0 \<rparr>,
        imageSpecification = \<lparr> xOrigin = 0, yOrigin = 0, width = 2, height = 2, bpp = 8,
          descriptor = \<lparr> attributeBits = 0, reserved = 0, direction = 0,
            interleave = 0 \<rparr> \<rparr> \<rparr>
      \<lparr> idLength = 0, colorMapType = 0, imageType = 2,
        colorMapSpecification = \<lparr> colorMapOffset = 0, colorMapSize = 0, colorMapBpp = 0 \<rparr>,
        imageSpecification = \<lparr> xOrigin = 0, yOrigin = 0, width = 2, height = 2, bpp = 8,
          descriptor = \<lparr> attributeBits = 0, reserved = 0, direction = 0,
            interleave = 0 \<rparr> \<rparr> \<rparr> = Inl (Exit unsupportedInputFormat)"
  using dispatch_by_depth [of
      "\<lparr> unread = [1, 2, 3, 4], eofFlag = False \<rparr>" "\<lparr> written = [], room = 8 \<rparr>"
      "\<lparr> idLength = 0, colorMapType = 0, imageType = 2,
        colorMapSpecification = \<lparr> colorMapOffset = 0, colorMapSize = 0, colorMapBpp = 0 \<rparr>,
        imageSpecification = \<lparr> xOrigin = 0, yOrigin = 0, width = 2, height = 2, bpp = 8,
          descriptor = \<lparr> attributeBits = 0, reserved = 0, direction = 0,
            interleave = 0 \<rparr> \<rparr> \<rparr>"
      "\<lparr> idLength = 0, colorMapType = 0, imageType = 2,
        colorMapSpecification = \<lparr> colorMapOffset = 0, colorMapSize = 0, colorMapBpp = 0 \<rparr>,
        imageSpecification = \<lparr> xOrigin = 0, yOrigin = 0, width = 2, height = 2, bpp = 8,
          descriptor = \<lparr> attributeBits = 0, reserved = 0, direction = 0,
            interleave = 0 \<rparr> \<rparr> \<rparr>"]
  by (simp add: uncompressedGrayScaleImage_def uncompressedTrueColorImage_def)

section \<open>The trailer copy\<close>

lemma copyTrailer_at_eof: "eofFlag inFile \<Longrightarrow> copyTrailer inFile outFile = (inFile, outFile)"
  by (subst copyTrailer.simps) (simp add: feof_def)

text \<open>
  From a stream whose end-of-file indicator is clear the loop copies every unread byte
  and then one byte more: the pass that meets the end of the stream gets \<open>EOF\<close> from
  \<open>fgetc\<close> and hands it to \<open>fputc\<close>, which writes it as the byte 255.
\<close>

lemma copyTrailer_result:
  assumes "\<not> eofFlag inFile" and "length (unread inFile) < room outFile"
  shows "copyTrailer inFile outFile =
     (inFile \<lparr> unread := [], eofFlag := True \<rparr>,
      outFile \<lparr> written := written outFile @ unread inFile @ [255],
                room := room outFile - length (unread inFile) - 1 \<rparr>)"
  using assms
proof (induction "unread inFile" arbitrary: inFile outFile)
  case Nil
  have "copyTrailer inFile outFile
      = copyTrailer (inFile \<lparr> eofFlag := True \<rparr>) (fputc EOF outFile)"
    using Nil by (subst copyTrailer.simps) (simp add: feof_def fgetc_def)
  also have "\<dots> = (inFile \<lparr> eofFlag := True \<rparr>, fputc EOF outFile)"
    by (simp add: copyTrailer_at_eof)
  finally show ?case
    using Nil by (simp add: fputc_def EOF_def)
next
  case (Cons b bs)
  let ?f = "inFile \<lparr> unread := bs \<rparr>"
  let ?o = "fputc (uint b) outFile"
  have u: "unread inFile = b # bs" using Cons.hyps(2) by simp
  have step: "copyTrailer inFile outFile = copyTrailer ?f ?o"
    using Cons.prems u by (subst copyTrailer.simps) (simp add: feof_def fgetc_def)
  have o: "?o = outFile \<lparr> written := written outFile @ [b], room := room outFile - 1 \<rparr>"
    using Cons.prems u by (simp add: fputc_def)
  have "copyTrailer ?f ?o =
     (?f \<lparr> unread := [], eofFlag := True \<rparr>,
      ?o \<lparr> written := written ?o @ unread ?f @ [255],
                room := room ?o - length (unread ?f) - 1 \<rparr>)"
    using Cons.prems u o by (intro Cons.hyps(1)) simp_all
  then show ?case
    using step u o by simp
qed

text \<open>
  Claim C5. The claim is that the trailer copier writes exactly the remaining input bytes
  and nothing else. On a 2x2 grayscale image with pixels 10, 20, 30, 40 and no trailer the
  conversion ends normally, but after the header and the one output pixel 25 the output
  holds an additional byte 255 that the input does not contain.
\<close>

theorem trailer_gains_a_byte:
  "convertFile
     \<lparr> unread = [0, 0, 3, 0, 0, 0, 0, 0, 0, 0, 0, 0, 2, 0, 2, 0, 8, 0] @ [10, 20, 30, 40],
       eofFlag = False \<rparr>
     \<lparr> written = [], room = 100 \<rparr>
   = Inr (\<lparr> unread = [], eofFlag = True \<rparr>,
          \<lparr> written = [0, 0, 3, 0, 0, 0, 0, 0, 0, 0, 0, 0, 1, 0, 1, 0, 8, 0] @ [25] @ [255],
            room = 80 \<rparr>)"
  by code_simp


section \<open>Reading and writing rows\<close>

lemma unat_inWidthRupOf: "unat (inWidthRupOf w) = 2 * ((unat w + 1) div 2)"
  by (simp only: inWidthRupOf_def unat_round_down_even unat_succ_word32)

lemma take_drop_chunk:
  assumes "i < w"
  shows "take n (drop (i * n) (take (n * w) xs)) = take n (drop (i * n) xs)"
proof -
  have "Suc i \<le> w" using assms by simp
  then have "n * Suc i \<le> n * w" by (rule mult_le_mono2)
  then have "n \<le> n * w - i * n" by (simp add: mult.commute)
  then show ?thesis by (simp add: drop_take min_def)
qed

lemma readObjects_ok:
  assumes "objectSize * numObjects \<le> length (unread inFile)"
  shows "readObjects objectSize numObjects inFile =
     Inr (take (objectSize * numObjects) (unread inFile),
          inFile \<lparr> unread := drop (objectSize * numObjects) (unread inFile) \<rparr>)"
  using assms by (simp add: readObjects_def fread_def)

lemma readObjects_short:
  assumes "length (unread inFile) < objectSize * numObjects"
  shows "readObjects objectSize numObjects inFile = Inl (Exit badInputFormat)"
proof -
  have "0 < objectSize" using assms by (cases objectSize) simp_all
  then have "length (unread inFile) div objectSize < numObjects"
    using assms by (simp add: less_mult_imp_div_less mult.commute)
  then show ?thesis
    using assms by (simp add: readObjects_def fread_def fail_def)
qed

lemma readRow_short:
  assumes "0 < inWidth" and "inWidth \<le> length row"
    and "length (unread inFile) < inWidth * numComponents"
  shows "readRow numComponents inFile row inWidth = Inl (Exit badInputFormat)"
  using assms
  by (simp add: readRow_def andThen_def readObjects_short mult.commute)

lemma readRow_ok:
  assumes "0 < inWidth" and "inWidth \<le> length row"
    and "inWidth * numComponents \<le> length (unread inFile)"
  shows "\<exists>row'. readRow numComponents inFile row inWidth =
           Inr (inFile \<lparr> unread := drop (inWidth * numComponents) (unread inFile) \<rparr>, row')
      \<and> length row' = length row
      \<and> (\<forall>i < length row. row' ! i =
            (if i < inWidth \<or> i = length row - 1
             then take numComponents (drop (min i (inWidth - 1) * numComponents) (unread inFile))
             else row ! i))"
proof -
  let ?bytes = "take (numComponents * inWidth) (unread inFile)"
  let ?row1 = "map (\<lambda>i. if i < inWidth
                                then take numComponents (drop (i * numComponents) ?bytes)
                                else row ! i) [0..<length row]"
  let ?row2 = "?row1[length ?row1 - 1 := ?row1 ! (inWidth - 1)]"
  have run: "readRow numComponents inFile row inWidth =
      Inr (inFile \<lparr> unread := drop (inWidth * numComponents) (unread inFile) \<rparr>, ?row2)"
  proof -
    have "numComponents * inWidth \<le> length (unread inFile)"
      using assms(3) by (simp add: mult.commute)
    then have "readObjects numComponents inWidth inFile =
        Inr (?bytes, inFile \<lparr> unread := drop (numComponents * inWidth) (unread inFile) \<rparr>)"
      by (rule readObjects_ok)
    then have ro: "readObjects numComponents inWidth inFile =
        Inr (?bytes, inFile \<lparr> unread := drop (inWidth * numComponents) (unread inFile) \<rparr>)"
      by (simp only: mult.commute)
    show ?thesis
      using assms(1,2) unfolding readRow_def ro andThen_def by (simp add: Let_def)
  qed
  have len: "length ?row2 = length row" by simp
  have last: "?row1 ! (inWidth - 1) =
      take numComponents (drop ((inWidth - 1) * numComponents) (unread inFile))"
    using assms(1,2) by (simp add: take_drop_chunk)
  have nth: "\<forall>i < length row. ?row2 ! i =
            (if i < inWidth \<or> i = length row - 1
             then take numComponents (drop (min i (inWidth - 1) * numComponents) (unread inFile))
             else row ! i)"
  proof (intro allI impI)
    fix i assume i: "i < length row"
    show "?row2 ! i =
            (if i < inWidth \<or> i = length row - 1
             then take numComponents (drop (min i (inWidth - 1) * numComponents) (unread inFile))
             else row ! i)"
    proof (cases "i = length row - 1")
      case True
      then have "?row2 ! i = ?row1 ! (inWidth - 1)" using i by simp
      moreover have "min i (inWidth - 1) = inWidth - 1" using True assms(2) by simp
      ultimately show ?thesis using True last by simp
    next
      case False
      then have "?row2 ! i = ?row1 ! i" using i by simp
      moreover have "i < inWidth \<Longrightarrow> min i (inWidth - 1) = i" by simp
      ultimately show ?thesis using False i by (simp add: take_drop_chunk)
    qed
  qed
  show ?thesis using run len nth by blast
qed

text \<open>
  Claim C4. For a width W > 0 and a row of the length the pipeline allocates,
  ((W + 1) & ~1), which is the next even number from W on: when the stream holds at least
  W pixels, \<open>readRow\<close> consumes exactly W pixels and returns a row of that length whose
  first W pixels are the pixels of the stream in order and, for odd W, whose pixel at
  index W equals the one at index W - 1; when the stream holds fewer than W pixels it
  fails with badInputFormat.
\<close>

theorem readRow_pads_odd_width:
  assumes "0 < unat w" and "length row = unat (inWidthRupOf w)"
  shows "unat (inWidthRupOf w) = 2 * ((unat w + 1) div 2)
    \<and> (unat w * numComponents \<le> length (unread inFile) \<longrightarrow>
         (\<exists>row'. readRow numComponents inFile row (unat w) =
              Inr (inFile \<lparr> unread := drop (unat w * numComponents) (unread inFile) \<rparr>, row')
            \<and> length row' = unat (inWidthRupOf w)
            \<and> (\<forall>i < unat w. row' ! i =
                  take numComponents (drop (i * numComponents) (unread inFile)))
            \<and> (odd (unat w) \<longrightarrow> row' ! unat w = row' ! (unat w - 1))))
    \<and> (length (unread inFile) < unat w * numComponents \<longrightarrow>
         readRow numComponents inFile row (unat w) = Inl (Exit badInputFormat))"
proof -
  have len: "length row = 2 * ((unat w + 1) div 2)"
    using assms(2) by (simp only: unat_inWidthRupOf)
  then have le: "unat w \<le> length row" by simp
  have short: "length (unread inFile) < unat w * numComponents \<Longrightarrow>
         readRow numComponents inFile row (unat w) = Inl (Exit badInputFormat)"
    using assms(1) le by (rule readRow_short)
  have good: "\<exists>row'. readRow numComponents inFile row (unat w) =
              Inr (inFile \<lparr> unread := drop (unat w * numComponents) (unread inFile) \<rparr>, row')
            \<and> length row' = unat (inWidthRupOf w)
            \<and> (\<forall>i < unat w. row' ! i =
                  take numComponents (drop (i * numComponents) (unread inFile)))
            \<and> (odd (unat w) \<longrightarrow> row' ! unat w = row' ! (unat w - 1))"
    if enough: "unat w * numComponents \<le> length (unread inFile)"
  proof -
    from readRow_ok [OF assms(1) le enough]
    obtain row' where
      run: "readRow numComponents inFile row (unat w) =
           Inr (inFile \<lparr> unread := drop (unat w * numComponents) (unread inFile) \<rparr>, row')"
      and l: "length row' = length row"
      and nth: "\<forall>i < length row. row' ! i =
            (if i < unat w \<or> i = length row - 1
             then take numComponents (drop (min i (unat w - 1) * numComponents) (unread inFile))
             else row ! i)"
      by blast
    have a: "\<forall>i < unat w. row' ! i =
                  take numComponents (drop (i * numComponents) (unread inFile))"
    proof (intro allI impI)
      fix i assume i: "i < unat w"
      then have "min i (unat w - 1) = i" by simp
      then show "row' ! i = take numComponents (drop (i * numComponents) (unread inFile))"
        using nth i le by simp
    qed
    have b: "row' ! unat w = row' ! (unat w - 1)" if odd: "odd (unat w)"
    proof -
      have lw: "length row = unat w + 1" using len odd by (auto elim: oddE)
      then have "row' ! unat w =
          take numComponents (drop ((unat w - 1) * numComponents) (unread inFile))"
        using nth by simp
      moreover have "row' ! (unat w - 1) =
          take numComponents (drop ((unat w - 1) * numComponents) (unread inFile))"
        using a assms(1) by simp
      ultimately show ?thesis by simp
    qed
    show ?thesis using run l a b assms(2) by auto
  qed
  show ?thesis using short good unat_inWidthRupOf by blast
qed

theorem readRow_pads_odd_width_witness:
  "\<exists>row'. readRow 1 \<lparr> unread = [1, 2, 3, 9], eofFlag = False \<rparr> [[0], [0], [0], [0]] 3 =
       Inr (\<lparr> unread = [9], eofFlag = False \<rparr>, row')
     \<and> length row' = 4 \<and> row' ! 2 = [3] \<and> row' ! 3 = row' ! 2"
proof -
  have w: "unat (3 :: Word) = 3" by simp
  have l: "unat (inWidthRupOf 3) = 4" by (simp add: unat_inWidthRupOf)
  have h1: "0 < unat (3 :: Word)" by simp
  have h2: "length [[0], [0], [0], [0 :: Byte]] = unat (inWidthRupOf 3)" by (simp add: l)
  show ?thesis
    using readRow_pads_odd_width [OF h1 h2, of 1 "\<lparr> unread = [1, 2, 3, 9], eofFlag = False \<rparr>"]
    by (auto simp: w l)
qed


section \<open>The reducer's assertions in the pipeline\<close>

lemma readRow_cases:
  "(\<exists>e. readRow n f row w = Inl e \<and> e \<noteq> AssertionFailed)
   \<or> (\<exists>f' row'. readRow n f row w = Inr (f', row') \<and> length row' = length row)"
  by (auto simp: readRow_def readObjects_def fread_def andThen_def fail_def Let_def)

lemma writeRow_cases:
  "(\<exists>e. writeRow n out row = Inl e \<and> e \<noteq> AssertionFailed)
   \<or> (\<exists>out'. writeRow n out row = Inr out')"
  by (auto simp: writeRow_def writeObjects_def fwrite_def fail_def)

lemma convertRows_assertion_iff:
  "convertRows n rowA rowB outRow = Inl AssertionFailed
     \<longleftrightarrow> \<not> (length rowA = length rowB \<and> length rowA = length outRow * 2)"
proof (cases "length rowA = length rowB \<and> length rowA = length outRow * 2")
  case True
  then have "length rowB = length rowA" and "length rowA = length outRow * 2" by simp_all
  then show ?thesis by (simp add: convertRows_result)
next
  case False
  then show ?thesis by (auto simp: convertRows_def)
qed



lemma convertPairs_step:
  assumes "readRow n f r0 w = Inr (f1, a)" and "readRow n f1 r1 w = Inr (f2, b)"
    and "convertRows n a b out = Inr c" and "writeRow n o' c = Inr o1"
  shows "convertPairs n w (Suc i) (f, o', r0, r1, out) = convertPairs n w i (f2, o1, a, b, c)"
  using assms by (simp add: andThen_def)

lemma convertPairs_fail_first:
  assumes "readRow n f r0 w = Inl e"
  shows "convertPairs n w (Suc i) (f, o', r0, r1, out) = Inl e"
  using assms by (simp add: andThen_def)

lemma convertPairs_fail_second:
  assumes "readRow n f r0 w = Inr (f1, a)" and "readRow n f1 r1 w = Inl e"
  shows "convertPairs n w (Suc i) (f, o', r0, r1, out) = Inl e"
  using assms by (simp add: andThen_def)

lemma convertPairs_fail_write:
  assumes "readRow n f r0 w = Inr (f1, a)" and "readRow n f1 r1 w = Inr (f2, b)"
    and "convertRows n a b out = Inr c" and "writeRow n o' c = Inl e"
  shows "convertPairs n w (Suc i) (f, o', r0, r1, out) = Inl e"
  using assms by (simp add: andThen_def)

lemma convertPairs_lengths:
  assumes "length r0 = length out * 2" and "length r1 = length out * 2"
  shows "convertPairs n w i (f, o', r0, r1, out) \<noteq> Inl AssertionFailed
    \<and> (\<forall>f2 o2 a b c. convertPairs n w i (f, o', r0, r1, out) = Inr (f2, o2, a, b, c)
          \<longrightarrow> length a = length c * 2 \<and> length b = length c * 2)"
  using assms
proof (induction i arbitrary: f o' r0 r1 out)
  case 0
  then show ?case by simp
next
  case (Suc i)
  from readRow_cases [of n f r0 w] show ?case
  proof (elim disjE exE conjE)
    fix e assume "readRow n f r0 w = Inl e" and ne: "e \<noteq> AssertionFailed"
    then have "convertPairs n w (Suc i) (f, o', r0, r1, out) = Inl e"
      by (simp only: convertPairs_fail_first)
    then show ?thesis using ne by (simp only:) simp
  next
    fix f1 a assume r0: "readRow n f r0 w = Inr (f1, a)" and la: "length a = length r0"
    from readRow_cases [of n f1 r1 w] show ?thesis
    proof (elim disjE exE conjE)
      fix e assume "readRow n f1 r1 w = Inl e" and ne: "e \<noteq> AssertionFailed"
      then have "convertPairs n w (Suc i) (f, o', r0, r1, out) = Inl e"
        using r0 by (simp only: convertPairs_fail_second)
      then show ?thesis using ne by (simp only:) simp
    next
      fix f2 b assume r1: "readRow n f1 r1 w = Inr (f2, b)" and lb: "length b = length r1"
      let ?c = "map (\<lambda>k. outPixelOf n (accumulated n (a ! (2 * k)) (a ! (2 * k + 1))
                        (b ! (2 * k)) (b ! (2 * k + 1)))) [0..<length out]"
      have cr: "convertRows n a b out = Inr ?c"
        using la lb Suc.prems by (intro convertRows_result) simp_all
      have lc: "length a = length ?c * 2" "length b = length ?c * 2"
        using la lb Suc.prems by simp_all
      from writeRow_cases [of n o' ?c] show ?thesis
      proof (elim disjE exE conjE)
        fix e assume wr: "writeRow n o' ?c = Inl e" and ne: "e \<noteq> AssertionFailed"
        have "convertPairs n w (Suc i) (f, o', r0, r1, out) = Inl e"
          using r0 r1 cr wr by (rule convertPairs_fail_write)
        then show ?thesis using ne by (simp only:) simp
      next
        fix o1 assume wr: "writeRow n o' ?c = Inr o1"
        have step: "convertPairs n w (Suc i) (f, o', r0, r1, out)
            = convertPairs n w i (f2, o1, a, b, ?c)"
          using r0 r1 cr wr by (rule convertPairs_step)
        show ?thesis unfolding step by (rule Suc.IH [OF lc])
      qed
    qed
  qed
qed

lemma rows_twice_columns: "unat (inWidthRupOf w) = unat (outColumnsRupOf w) * 2"
  by (simp add: unat_inWidthRupOf unat_outColumnsRupOf)

lemma convertImage_cases:
  "convertImage n inFile outFile inSpec outSpec =
     (if unat (inWidthRupOf (width inSpec)) = 0 \<or> unat (outColumnsRupOf (width inSpec)) = 0
      then Inl OutOfBounds
      else
        (case convertPairs n (unat (width inSpec)) (unat (outRowsCompleteOf (height inSpec)))
                (inFile, outFile,
                 replicate (unat (inWidthRupOf (width inSpec))) (replicate n 0),
                 replicate (unat (inWidthRupOf (width inSpec))) (replicate n 0),
                 replicate (unat (outColumnsRupOf (width inSpec))) (replicate n 0)) of
           Inl e \<Rightarrow> Inl e
         | Inr (f2, o2, a, b, c) \<Rightarrow>
             if odd (unat (height inSpec)) then
               (case readRow n f2 a (unat (width inSpec)) of
                  Inl e \<Rightarrow> Inl e
                | Inr (f3, a') \<Rightarrow>
                    (case convertRows n a' a' c of
                       Inl e \<Rightarrow> Inl e
                     | Inr d \<Rightarrow>
                         (case writeRow n o2 d of
                            Inl e \<Rightarrow> Inl e
                          | Inr o3 \<Rightarrow> Inr (f3, o3))))
             else Inr (f2, o2)))"
  unfolding convertImage_def Let_def andThen_def odd_height_iff
  by (simp split: sum.splits prod.splits)

lemma convertImage_no_assertion:
  "convertImage n inFile outFile inSpec outSpec \<noteq> Inl AssertionFailed"
proof -
  let ?w = "width inSpec"
  let ?r = "replicate (unat (inWidthRupOf ?w)) (replicate n (0 :: Byte))"
  let ?c = "replicate (unat (outColumnsRupOf ?w)) (replicate n (0 :: Byte))"
  let ?pairs = "convertPairs n (unat ?w) (unat (outRowsCompleteOf (height inSpec)))
                  (inFile, outFile, ?r, ?r, ?c)"
  have l: "length ?r = length ?c * 2" by (simp add: rows_twice_columns)
  note p = convertPairs_lengths [OF l l, of n "unat ?w"
      "unat (outRowsCompleteOf (height inSpec))" inFile outFile]
  show ?thesis
  proof (cases ?pairs)
    case (Inl e)
    then have "e \<noteq> AssertionFailed" using p by auto
    then show ?thesis using Inl by (simp add: convertImage_cases)
  next
    case (Inr s)
    obtain f2 o2 a b c where s: "s = (f2, o2, a, b, c)" by (cases s) auto
    have pr: "?pairs = Inr (f2, o2, a, b, c)" using Inr s by simp
    have la: "length a = length c * 2" using p pr by blast
    show ?thesis
    proof (cases "odd (unat (height inSpec))")
      case False
      then show ?thesis using pr by (simp add: convertImage_cases)
    next
      case True
      from readRow_cases [of n f2 a "unat ?w"] show ?thesis
      proof (elim disjE exE conjE)
        fix e assume "readRow n f2 a (unat ?w) = Inl e" "e \<noteq> AssertionFailed"
        then show ?thesis
          using pr True by (simp add: convertImage_cases)
      next
        fix f3 a' assume rr: "readRow n f2 a (unat ?w) = Inr (f3, a')"
          and la': "length a' = length a"
        let ?d = "map (\<lambda>k. outPixelOf n (accumulated n (a' ! (2 * k)) (a' ! (2 * k + 1))
                        (a' ! (2 * k)) (a' ! (2 * k + 1)))) [0..<length c]"
        have cr: "convertRows n a' a' c = Inr ?d"
          using la la' by (intro convertRows_result) simp_all
        from writeRow_cases [of n o2 ?d] show ?thesis
        proof (elim disjE exE conjE)
          fix e assume "writeRow n o2 ?d = Inl e" "e \<noteq> AssertionFailed"
          then show ?thesis
            using pr True rr cr by (simp add: convertImage_cases)
        next
          fix o3 assume "writeRow n o2 ?d = Inr o3"
          then show ?thesis
            using pr True rr cr by (simp add: convertImage_cases)
        qed
      qed
    qed
  qed
qed

lemma inspect_cases: "inspect h = Inr () \<or> (\<exists>s. inspect h = Inl (Exit s))"
  by (simp add: inspect_def enforce_def andThen_def fail_def)

lemma convertPixels_no_assertion:
  "convertPixels inFile outFile inHeader outHeader \<noteq> Inl AssertionFailed"
  by (simp add: convertPixels_def enforce_def andThen_def fail_def convertImage_no_assertion)

lemma andThen_no_assertion:
  assumes "r \<noteq> Inl AssertionFailed" and "\<And>x. k x \<noteq> Inl AssertionFailed"
  shows "andThen r k \<noteq> Inl AssertionFailed"
  using assms by (cases r) (simp_all add: andThen_def)

lemma readObjects_no_assertion: "readObjects s k f \<noteq> Inl AssertionFailed"
  by (simp add: readObjects_def fread_def fail_def)

lemma writeObjects_no_assertion: "writeObjects s k bs f \<noteq> Inl AssertionFailed"
  by (simp add: writeObjects_def fwrite_def fail_def)

lemma inspect_no_assertion: "inspect h \<noteq> Inl AssertionFailed"
  using inspect_cases [of h] by auto

lemma copyTrailer_feof: "feof (fst (copyTrailer inFile outFile))"
proof (induction inFile outFile rule: copyTrailer.induct)
  case (1 inFile outFile)
  show ?case
  proof (cases "feof inFile")
    case True
    then show ?thesis by (subst copyTrailer.simps) simp
  next
    case False
    obtain c inFile' where g: "fgetc inFile = (c, inFile')" by (cases "fgetc inFile")
    have "copyTrailer inFile outFile = copyTrailer inFile' (fputc c outFile)"
      using False g by (subst copyTrailer.simps) simp
    then show ?thesis using "1.IH" [OF False g [symmetric]] by simp
  qed
qed

lemma idLength_fits: "\<not> UINT8_MAX < unat (b :: Byte)"
  using unat_byte_le [of b] by (simp add: UINT8_MAX_def)

lemma convertFile_no_assertion: "convertFile inFile outFile \<noteq> Inl AssertionFailed"
  unfolding convertFile_def Let_def
  by (intro andThen_no_assertion readObjects_no_assertion writeObjects_no_assertion
      inspect_no_assertion convertPixels_no_assertion)
    (simp_all add: split_def idLength_fits copyTrailer_feof andThen_no_assertion
      readObjects_no_assertion writeObjects_no_assertion inspect_no_assertion
      convertPixels_no_assertion)

text \<open>
  Claim C9. The reducer's assertions hold on every call the pipeline makes: the reducer
  reports a failed assertion exactly when its rows do not have equal lengths of twice the
  output row's length, and neither the pipeline nor the whole conversion ever ends in a
  failed assertion, whatever the input. The rows the pipeline allocates have the width
  rounded up to even, which is twice the output row's length.
\<close>

theorem reducer_precondition_holds:
  "convertImage numComponents inFile outFile inSpecification outSpecification
      \<noteq> Inl AssertionFailed
   \<and> convertFile inFile outFile \<noteq> Inl AssertionFailed
   \<and> (convertRows numComponents rowA rowB outRow = Inl AssertionFailed
        \<longleftrightarrow> \<not> (length rowA = length rowB \<and> length rowA = length outRow * 2))
   \<and> unat (inWidthRupOf w) = unat (outColumnsRupOf w) * 2
   \<and> even (unat (inWidthRupOf w))
   \<and> unat w \<le> unat (inWidthRupOf w)"
proof -
  have "unat w \<le> 2 * ((unat w + 1) div 2)" by simp
  then have "unat w \<le> unat (inWidthRupOf w)" by (simp only: unat_inWidthRupOf)
  moreover have "even (unat (inWidthRupOf w))" by (simp only: unat_inWidthRupOf) simp
  ultimately show ?thesis
    using convertImage_no_assertion convertFile_no_assertion convertRows_assertion_iff
      rows_twice_columns [of w]
    by blast
qed


section \<open>The effect of the pixel pipeline\<close>

lemma length_concat_uniform:
  "(\<forall>p \<in> set xs. length p = n) \<Longrightarrow> length (concat xs) = length xs * n"
  by (induction xs) simp_all

lemma writeRow_ok:
  assumes "\<forall>p \<in> set row. length p = n" and "length row * n \<le> room outFile"
  shows "writeRow n outFile row =
     Inr (outFile \<lparr> written := written outFile @ concat row,
                     room := room outFile - length row * n \<rparr>)"
proof -
  have "length (concat row) = n * length row"
    using length_concat_uniform [OF assms(1)] by (simp add: mult.commute)
  moreover have "n * length row \<le> room outFile"
    using assms(2) by (simp add: mult.commute)
  ultimately show ?thesis
    by (simp add: writeRow_def writeObjects_def fwrite_def mult.commute)
qed

lemma length_inputRow: "length (inputRow n w bytes j) = 2 * ((w + 1) div 2)"
  by (simp add: inputRow_def)

lemma length_reducedRow: "length (reducedRow n a b) = length a div 2"
  by (simp add: reducedRow_def)

lemma reducedRow_pixels: "\<forall>p \<in> set (reducedRow n a b). length p = n"
  by (auto simp: reducedRow_def length_outPixelOf)

lemma convertRows_reducedRow:
  assumes "length b = length a" and "length a = length out * 2"
  shows "convertRows n a b out = Inr (reducedRow n a b)"
  using assms by (simp add: convertRows_result reducedRow_def)

lemma readRow_inputRow:
  assumes "0 < w" and "length row = 2 * ((w + 1) div 2)"
    and "w * n \<le> length (unread inFile)"
  shows "readRow n inFile row w =
     Inr (inFile \<lparr> unread := drop (w * n) (unread inFile) \<rparr>, inputRow n w (unread inFile) 0)"
proof -
  have le: "w \<le> length row" using assms(2) by simp
  from readRow_ok [OF assms(1) le assms(3)]
  obtain row' where
    run: "readRow n inFile row w =
           Inr (inFile \<lparr> unread := drop (w * n) (unread inFile) \<rparr>, row')"
    and l: "length row' = length row"
    and nth: "\<forall>i < length row. row' ! i =
            (if i < w \<or> i = length row - 1
             then take n (drop (min i (w - 1) * n) (unread inFile))
             else row ! i)"
    by blast
  have "row' = inputRow n w (unread inFile) 0"
  proof (rule nth_equalityI)
    show "length row' = length (inputRow n w (unread inFile) 0)"
      using l assms(2) by (simp add: length_inputRow)
  next
    fix i assume "i < length row'"
    then have i: "i < length row" using l by simp
    have "i < w \<or> i = length row - 1" using i assms(2) by auto
    then have "row' ! i = take n (drop (min i (w - 1) * n) (unread inFile))"
      using nth i by simp
    then show "row' ! i = inputRow n w (unread inFile) 0 ! i"
      using i assms(2) by (simp add: inputRow_def)
  qed
  then show ?thesis using run by simp
qed

lemma inputRow_shift:
  "inputRow n w (drop (k * w * n) bytes) j = inputRow n w bytes (j + k)"
proof -
  have "\<And>i. (j * w + min i (w - 1)) * n + k * w * n = ((j + k) * w + min i (w - 1)) * n"
    by (simp add: algebra_simps)
  then show ?thesis
    by (simp add: inputRow_def)
qed

lemma convertPairs_ok:
  assumes "0 < w"
    and "length r0 = 2 * ((w + 1) div 2)" and "length r1 = 2 * ((w + 1) div 2)"
    and "length out = (w + 1) div 2"
    and "2 * i * w * n \<le> length (unread f)"
    and "i * ((w + 1) div 2) * n \<le> room o'"
  shows "\<exists>a b c. convertPairs n w i (f, o', r0, r1, out) =
       Inr (f \<lparr> unread := drop (2 * i * w * n) (unread f) \<rparr>,
            o' \<lparr> written := written o' @ concat (map (\<lambda>j. concat (reducedRow n
                         (inputRow n w (unread f) (2 * j))
                         (inputRow n w (unread f) (2 * j + 1)))) [0..<i]),
                 room := room o' - i * ((w + 1) div 2) * n \<rparr>, a, b, c)
     \<and> length a = 2 * ((w + 1) div 2) \<and> length b = 2 * ((w + 1) div 2)
     \<and> length c = (w + 1) div 2"
  using assms
proof (induction i arbitrary: f o' r0 r1 out)
  case 0
  then show ?case by simp
next
  case (Suc i)
  let ?u = "unread f"
  let ?C = "(w + 1) div 2"
  let ?g = "\<lambda>j. concat (reducedRow n (inputRow n w ?u (2 * j)) (inputRow n w ?u (2 * j + 1)))"
  let ?f1 = "f \<lparr> unread := drop (w * n) ?u \<rparr>"
  let ?f2 = "f \<lparr> unread := drop (2 * w * n) ?u \<rparr>"
  let ?A = "inputRow n w ?u 0"
  let ?B = "inputRow n w ?u 1"
  let ?R = "reducedRow n ?A ?B"
  let ?o1 = "o' \<lparr> written := written o' @ concat ?R, room := room o' - ?C * n \<rparr>"
  have enough: "2 * w * n + 2 * i * w * n \<le> length ?u"
    using Suc.prems(5) by (simp add: algebra_simps)
  have rr0: "readRow n f r0 w = Inr (?f1, ?A)"
    using Suc.prems(1,2) enough by (intro readRow_inputRow) simp_all
  have "readRow n ?f1 r1 w =
      Inr (?f1 \<lparr> unread := drop (w * n) (unread ?f1) \<rparr>, inputRow n w (unread ?f1) 0)"
    using Suc.prems(1,3) enough by (intro readRow_inputRow) simp_all
  moreover have "inputRow n w (unread ?f1) 0 = ?B"
    using inputRow_shift [of n w 1 ?u 0] by simp
  moreover have "?f1 \<lparr> unread := drop (w * n) (unread ?f1) \<rparr> = ?f2"
  proof -
    have "w * n + w * n = 2 * w * n" by simp
    then have "drop (w * n) (drop (w * n) ?u) = drop (2 * w * n) ?u"
      by (simp only: drop_drop)
    then show ?thesis by simp
  qed
  ultimately have rr1: "readRow n ?f1 r1 w = Inr (?f2, ?B)" by simp
  have cr: "convertRows n ?A ?B out = Inr ?R"
    using Suc.prems(4) by (intro convertRows_reducedRow) (simp_all add: length_inputRow)
  have lR: "length ?R = ?C" by (simp add: length_reducedRow length_inputRow)
  have roomy: "?C * n + i * ?C * n \<le> room o'"
    using Suc.prems(6) by (simp add: algebra_simps)
  have wr: "writeRow n o' ?R = Inr ?o1"
    using writeRow_ok [of ?R n o'] reducedRow_pixels [of n ?A ?B] roomy lR by simp
  have step: "convertPairs n w (Suc i) (f, o', r0, r1, out)
      = convertPairs n w i (?f2, ?o1, ?A, ?B, ?R)"
    using rr0 rr1 cr wr by (rule convertPairs_step)
  have ih: "\<exists>a b c. convertPairs n w i (?f2, ?o1, ?A, ?B, ?R) =
       Inr (?f2 \<lparr> unread := drop (2 * i * w * n) (unread ?f2) \<rparr>,
            ?o1 \<lparr> written := written ?o1 @ concat (map (\<lambda>j. concat (reducedRow n
                         (inputRow n w (unread ?f2) (2 * j))
                         (inputRow n w (unread ?f2) (2 * j + 1)))) [0..<i]),
                 room := room ?o1 - i * ?C * n \<rparr>, a, b, c)
     \<and> length a = 2 * ?C \<and> length b = 2 * ?C \<and> length c = ?C"
    using Suc.prems(1) enough roomy lR
    by (intro Suc.IH) (simp_all add: length_inputRow)
  have sh: "\<And>j. inputRow n w (unread ?f2) j = inputRow n w ?u (j + 2)"
    using inputRow_shift [of n w 2 ?u] by simp
  have f_eq: "?f2 \<lparr> unread := drop (2 * i * w * n) (unread ?f2) \<rparr>
      = f \<lparr> unread := drop (2 * Suc i * w * n) ?u \<rparr>"
  proof -
    have "2 * i * w * n + 2 * w * n = 2 * Suc i * w * n" by (simp add: algebra_simps)
    then have "drop (2 * i * w * n) (drop (2 * w * n) ?u) = drop (2 * Suc i * w * n) ?u"
      by (simp only: drop_drop)
    then show ?thesis by simp
  qed
  have g_eq: "map (\<lambda>j. concat (reducedRow n (inputRow n w (unread ?f2) (2 * j))
                         (inputRow n w (unread ?f2) (2 * j + 1)))) [0..<i]
      = map (\<lambda>j. ?g (Suc j)) [0..<i]"
    by (simp only: sh) (simp add: algebra_simps)
  have o_eq: "?o1 \<lparr> written := written ?o1 @ concat (map (\<lambda>j. ?g (Suc j)) [0..<i]),
                 room := room ?o1 - i * ?C * n \<rparr>
      = o' \<lparr> written := written o' @ concat (map ?g [0..<Suc i]),
                 room := room o' - Suc i * ?C * n \<rparr>"
    by (simp add: map_upt_Suc algebra_simps del: upt_Suc)
  show ?case
    using ih unfolding step f_eq g_eq o_eq .
qed

lemma length_expectedRows: "length (expectedRows n w h bytes) = (h + 1) div 2"
  by (auto simp: expectedRows_def elim: oddE)

lemma concat_expectedRows:
  "concat (map concat (expectedRows n w h bytes)) =
     concat (map (\<lambda>j. concat (reducedRow n (inputRow n w bytes (2 * j))
                         (inputRow n w bytes (2 * j + 1)))) [0..<h div 2])
     @ (if odd h then concat (reducedRow n (inputRow n w bytes (h - 1))
                         (inputRow n w bytes (h - 1))) else [])"
  by (simp add: expectedRows_def comp_def)

text \<open>
  Claim C3. For a header of height H and width W > 0, an input stream that holds at least
  H rows of W pixels and an output stream with room for the result, the pipeline consumes
  exactly H input rows and appends exactly (H + 1) div 2 output rows: for every
  i < H div 2 the reducer's row for input rows 2i and 2i + 1 (each padded to even
  length), and, when H is odd, one final row that is the reducer's row for input row
  H - 1 paired with itself.
\<close>

theorem pipeline_rows:
  assumes "0 < unat (width inSpec)"
    and "unat (height inSpec) * unat (width inSpec) * n \<le> length (unread inFile)"
    and "((unat (height inSpec) + 1) div 2) * ((unat (width inSpec) + 1) div 2) * n
           \<le> room outFile"
  shows "convertImage n inFile outFile inSpec outSpec =
      Inr (inFile \<lparr> unread := drop (unat (height inSpec) * unat (width inSpec) * n)
                                  (unread inFile) \<rparr>,
           outFile \<lparr> written := written outFile @ concat (map concat
                        (expectedRows n (unat (width inSpec)) (unat (height inSpec))
                           (unread inFile))),
                     room := room outFile
                        - ((unat (height inSpec) + 1) div 2)
                          * ((unat (width inSpec) + 1) div 2) * n \<rparr>)
    \<and> length (expectedRows n (unat (width inSpec)) (unat (height inSpec)) (unread inFile))
        = (unat (height inSpec) + 1) div 2"
proof -
  define W where "W = unat (width inSpec)"
  define H where "H = unat (height inSpec)"
  define P where "P = H div 2"
  define C where "C = (W + 1) div 2"
  define u where "u = unread inFile"
  let ?g = "\<lambda>j. concat (reducedRow n (inputRow n W u (2 * j)) (inputRow n W u (2 * j + 1)))"
  let ?r = "replicate (2 * C) (replicate n (0 :: Byte))"
  let ?c = "replicate C (replicate n (0 :: Byte))"
  let ?f2 = "inFile \<lparr> unread := drop (2 * P * W * n) u \<rparr>"
  let ?o2 = "outFile \<lparr> written := written outFile @ concat (map ?g [0..<P]),
                       room := room outFile - P * C * n \<rparr>"
  have W: "0 < W" using assms(1) by (simp add: W_def)
  have C: "0 < C" using W by (simp add: C_def)
  have inW: "unat (inWidthRupOf (width inSpec)) = 2 * C"
    by (simp only: unat_inWidthRupOf C_def W_def)
  have outC: "unat (outColumnsRupOf (width inSpec)) = C"
    by (simp only: unat_outColumnsRupOf C_def W_def)
  have outR: "unat (outRowsCompleteOf (height inSpec)) = P"
    by (simp only: unat_outRowsCompleteOf P_def H_def)
  have data: "H * W * n \<le> length u"
    using assms(2) by (simp only: W_def H_def u_def)
  have space: "((H + 1) div 2) * C * n \<le> room outFile"
    using assms(3) by (simp only: W_def H_def C_def)
  have Hcases: "(even H \<and> H = 2 * P \<and> (H + 1) div 2 = P)
      \<or> (odd H \<and> H = 2 * P + 1 \<and> (H + 1) div 2 = P + 1)"
    unfolding P_def by (cases "even H") (auto elim: oddE)
  have data2: "2 * P * W * n \<le> length u"
  proof -
    have le: "2 * P \<le> H" using Hcases by auto
    have "2 * P * W * n = 2 * P * (W * n)" by (simp only: mult.assoc)
    also have "\<dots> \<le> H * (W * n)" using le by (rule mult_le_mono1)
    also have "\<dots> = H * W * n" by (simp only: mult.assoc)
    finally show ?thesis using data by (rule le_trans)
  qed
  have space2: "P * C * n \<le> room outFile"
  proof -
    have le: "P \<le> (H + 1) div 2" using Hcases by auto
    have "P * C * n = P * (C * n)" by (simp only: mult.assoc)
    also have "\<dots> \<le> ((H + 1) div 2) * (C * n)" using le by (rule mult_le_mono1)
    also have "\<dots> = ((H + 1) div 2) * C * n" by (simp only: mult.assoc)
    finally show ?thesis using space by (rule le_trans)
  qed
  from convertPairs_ok [of W ?r ?r ?c P n inFile outFile] W data2 space2
  obtain a b c where
    pairs: "convertPairs n W P (inFile, outFile, ?r, ?r, ?c) = Inr (?f2, ?o2, a, b, c)"
    and la: "length a = 2 * C" and lc: "length c = C"
    unfolding C_def u_def by auto
  have img: "convertImage n inFile outFile inSpec outSpec =
      (if odd H then
         (case readRow n ?f2 a W of
            Inl e \<Rightarrow> Inl e
          | Inr (f3, a') \<Rightarrow>
              (case convertRows n a' a' c of
                 Inl e \<Rightarrow> Inl e
               | Inr d \<Rightarrow>
                   (case writeRow n ?o2 d of
                      Inl e \<Rightarrow> Inl e
                    | Inr o3 \<Rightarrow> Inr (f3, o3))))
       else Inr (?f2, ?o2))"
  proof -
    have nz: "(2 * C = 0 \<or> C = 0) = False" using C by simp
    show ?thesis
      unfolding convertImage_cases inW outC outR W_def [symmetric] H_def [symmetric] pairs nz
      by (simp only: if_False sum.case prod.case)
  qed
  have goal1: "convertImage n inFile outFile inSpec outSpec =
      Inr (inFile \<lparr> unread := drop (H * W * n) u \<rparr>,
           outFile \<lparr> written := written outFile @ concat (map concat (expectedRows n W H u)),
                     room := room outFile - ((H + 1) div 2) * C * n \<rparr>)"
  proof (cases "odd H")
    case False
    then have h: "H = 2 * P" and hh: "(H + 1) div 2 = P" "H div 2 = P"
      using Hcases by (auto simp: P_def)
    have "convertImage n inFile outFile inSpec outSpec = Inr (?f2, ?o2)"
      using img False by simp
    then show ?thesis
      using False by (simp only: concat_expectedRows hh) (simp add: h)
  next
    case True
    then have h: "H = 2 * P + 1" and hh: "(H + 1) div 2 = P + 1" "H div 2 = P"
      using Hcases by (auto simp: P_def)
    let ?L = "inputRow n W u (H - 1)"
    let ?f3 = "inFile \<lparr> unread := drop (H * W * n) u \<rparr>"
    let ?d = "reducedRow n ?L ?L"
    let ?o3 = "?o2 \<lparr> written := written ?o2 @ concat ?d, room := room ?o2 - C * n \<rparr>"
    have hw: "H * W * n = W * n + 2 * P * W * n" by (simp add: h algebra_simps)
    have "W * n \<le> length (unread ?f2)" using data hw by simp
    then have "readRow n ?f2 a W =
        Inr (?f2 \<lparr> unread := drop (W * n) (unread ?f2) \<rparr>, inputRow n W (unread ?f2) 0)"
      using W la by (intro readRow_inputRow) (simp_all add: C_def)
    moreover have "inputRow n W (unread ?f2) 0 = ?L"
      using inputRow_shift [of n W "2 * P" u 0] by (simp add: h)
    moreover have "?f2 \<lparr> unread := drop (W * n) (unread ?f2) \<rparr> = ?f3"
      by (simp add: hw)
    ultimately have rr: "readRow n ?f2 a W = Inr (?f3, ?L)" by simp
    have cr: "convertRows n ?L ?L c = Inr ?d"
      using lc by (intro convertRows_reducedRow) (simp_all add: length_inputRow C_def)
    have ld: "length ?d = C" by (simp add: length_reducedRow length_inputRow C_def)
    have sp: "((H + 1) div 2) * C * n = C * n + P * C * n"
      by (simp only: hh) (simp add: algebra_simps)
    have "C * n + P * C * n \<le> room outFile"
      using space unfolding sp .
    then have wr: "writeRow n ?o2 ?d = Inr ?o3"
      using writeRow_ok [of ?d n ?o2] reducedRow_pixels [of n ?L ?L] ld by simp
    have "convertImage n inFile outFile inSpec outSpec = Inr (?f3, ?o3)"
      using img True rr cr wr by simp
    then show ?thesis
      using True by (simp only: concat_expectedRows hh) (simp add: algebra_simps)
  qed
  show ?thesis
    using goal1 length_expectedRows [of n W H u]
    by (simp only: W_def H_def C_def u_def)
qed

theorem pipeline_rows_witness:
  "convertImage 1 \<lparr> unread = [1, 2, 3, 4, 5, 6, 7, 8, 9, 77], eofFlag = False \<rparr>
      \<lparr> written = [], room = 10 \<rparr>
      \<lparr> xOrigin = 0, yOrigin = 0, width = 3, height = 3, bpp = 8,
        descriptor = \<lparr> attributeBits = 0, reserved = 0, direction = 0, interleave = 0 \<rparr> \<rparr>
      \<lparr> xOrigin = 0, yOrigin = 0, width = 3, height = 3, bpp = 8,
        descriptor = \<lparr> attributeBits = 0, reserved = 0, direction = 0, interleave = 0 \<rparr> \<rparr>
    = Inr (\<lparr> unread = [77], eofFlag = False \<rparr>, \<lparr> written = [3, 5, 8, 9], room = 6 \<rparr>)"
proof -
  have e: "expectedRows (Suc 0) 3 3 [1, 2, 3, 4, 5, 6, 7, 8, 9, 77] = [[[3], [5]], [[8], [9]]]"
    by code_simp
  show ?thesis
    using pipeline_rows [of
      "\<lparr> xOrigin = 0, yOrigin = 0, width = 3, height = 3, bpp = 8,
        descriptor = \<lparr> attributeBits = 0, reserved = 0, direction = 0, interleave = 0 \<rparr> \<rparr>"
      1 "\<lparr> unread = [1, 2, 3, 4, 5, 6, 7, 8, 9, 77], eofFlag = False \<rparr>"
      "\<lparr> written = [], room = 10 \<rparr>"
      "\<lparr> xOrigin = 0, yOrigin = 0, width = 3, height = 3, bpp = 8,
        descriptor = \<lparr> attributeBits = 0, reserved = 0, direction = 0, interleave = 0 \<rparr> \<rparr>"]
    by (simp add: e)
qed


end
